theory Spec2Isabelle
  imports Main
begin

section \<open>The reserved-word switch generator (GenerateReservedWords.py)\<close>

text \<open>
  The generator receives the reserved words as a list of pairs \<open>(index, word)\<close> and writes
  the text of a decision procedure to an output sink. The model keeps the source's
  structure: the option dictionary \<open>opt\<close> is a record that is passed along and returned
  updated, the sink is the string of the characters written so far, and every
  \<open>assert\<close> and every subscript that can raise is a branch that returns the error.
  Indices, columns and the count of unprocessed columns are natural numbers (the source
  builds them with \<open>range\<close>, \<open>len\<close> and \<open>- 1\<close> behind a test for zero); characters are the
  8-bit characters of HOL.
\<close>

subsection \<open>Errors, options and the output sink\<close>

datatype error = AssertionError | IndexError

type_synonym reserved_word = "nat \<times> string"

record opt =
  indent_level :: int
  use_if_threshold :: int
  char_tail_test_threshold :: int
  output_sink :: string

text \<open>\<open>"    " * opt["indent_level"]\<close>: a count below one repeats nothing.\<close>

definition indentation :: "int \<Rightarrow> string" where
  "indentation level = concat (replicate (nat level) ''    '')"

definition line :: "opt \<Rightarrow> string \<Rightarrow> opt" where
  "line opt s = opt\<lparr>output_sink := output_sink opt @ indentation (indent_level opt) @ s @ [CHR 0x0A]\<rparr>"

definition indent :: "opt \<Rightarrow> opt" where
  "indent opt = opt\<lparr>indent_level := indent_level opt + 1\<rparr>"

definition dedent :: "opt \<Rightarrow> opt" where
  "dedent opt = opt\<lparr>indent_level := indent_level opt - 1\<rparr>"

subsection \<open>Formatting of integers and characters\<close>

definition digit_char :: "nat \<Rightarrow> char" where
  "digit_char d = char_of (48 + d)"

text \<open>\<open>str\<close> of a non-negative integer, as an f-string field prints it.\<close>

fun str_nat :: "nat \<Rightarrow> string" where
  "str_nat n = (if n < 10 then [digit_char n] else str_nat (n div 10) @ [digit_char (n mod 10)])"

declare str_nat.simps [simp del]

definition hex_char :: "nat \<Rightarrow> char" where
  "hex_char d = (if d < 10 then char_of (48 + d) else char_of (87 + d))"

text \<open>
  \<open>repr\<close> of a string of one character: single quotes around the character, double quotes
  when the character is the single quote, and the escapes of Python for the backslash and
  for the characters that are not printable.
\<close>

definition py_repr_char :: "char \<Rightarrow> string" where
  "py_repr_char c =
     (let n = (of_char c :: nat) in
      if n = 39 then [CHR 0x22, c, CHR 0x22]
      else if n = 92 then [CHR 0x27, CHR 0x5C, CHR 0x5C, CHR 0x27]
      else if n = 9 then [CHR 0x27, CHR 0x5C, CHR ''t'', CHR 0x27]
      else if n = 10 then [CHR 0x27, CHR 0x5C, CHR ''n'', CHR 0x27]
      else if n = 13 then [CHR 0x27, CHR 0x5C, CHR ''r'', CHR 0x27]
      else if n < 32 \<or> (127 \<le> n \<and> n \<le> 160) \<or> n = 173
        then [CHR 0x27, CHR 0x5C, CHR ''x'', hex_char (n div 16), hex_char (n mod 16), CHR 0x27]
      else [CHR 0x27, c, CHR 0x27])"

subsection \<open>Choosing the column to dispatch on\<close>

text \<open>
  \<open>span_and_count_at\<close>: the keys of \<open>chars_dict\<close> are the character codes that occur at
  the column; sorted, they give the span (last minus first plus one) and the count.
  \<open>word[column]\<close> raises IndexError on a word that is too short; the function writes
  nothing, so which word raises first does not show.
\<close>

definition span_and_count_at :: "reserved_word list \<Rightarrow> nat \<Rightarrow> error + (int \<times> int)" where
  "span_and_count_at reserved_word_list column =
     (if length reserved_word_list = 0 then Inl AssertionError
      else if \<exists>(index, word) \<in> set reserved_word_list. length word \<le> column then Inl IndexError
      else
        let chars = sort (remdups (map (\<lambda>(index, word). (of_char (word ! column) :: int))
                                       reserved_word_list))
        in Inr (last chars - hd chars + 1, int (length chars)))"

text \<open>
  The scan of \<open>optimal_switch_column\<close> over \<open>range(0, unprocessed_columns)\<close>, from \<open>index\<close>
  on, with the four running variables of the source.
\<close>

function osc_scan ::
  "opt \<Rightarrow> reserved_word list \<Rightarrow> nat list \<Rightarrow> nat \<Rightarrow> nat \<Rightarrow> int \<Rightarrow> int \<Rightarrow> nat \<Rightarrow> nat \<Rightarrow> error + (nat \<times> bool)"
where
  "osc_scan opt reserved_word_list columns unprocessed_columns index
            min_count min_span min_count_index min_span_index =
     (if index < unprocessed_columns then
        (if length columns \<le> index then Inl IndexError
         else
           case span_and_count_at reserved_word_list (columns ! index) of
             Inl e \<Rightarrow> Inl e
           | Inr (span, count) \<Rightarrow>
               if span = 0 then Inl AssertionError
               else if span = 1 then
                 (if count \<noteq> 1 then Inl AssertionError else Inr (1, True))
               else if count = 1 then Inl AssertionError
               else
                 let (min_span, min_span_index) =
                       (if index = 0 \<or> min_span > span then (span, index)
                        else (min_span, min_span_index));
                     (min_count, min_count_index) =
                       (if index = 0 \<or> min_count > count then (count, index)
                        else (min_count, min_count_index))
                 in osc_scan opt reserved_word_list columns unprocessed_columns (Suc index)
                      min_count min_span min_count_index min_span_index)
      else if min_count \<le> use_if_threshold opt then Inr (min_count_index, True)
      else Inr (min_span_index, False))"
  by pat_completeness auto
termination
  by (relation "measure (\<lambda>(opt, ws, cols, n, index, rest). n - index)") auto

declare osc_scan.simps [simp del]

definition optimal_switch_column ::
  "opt \<Rightarrow> reserved_word list \<Rightarrow> nat list \<Rightarrow> nat \<Rightarrow> error + (nat \<times> bool)"
where
  "optimal_switch_column opt reserved_word_list columns unprocessed_columns =
     (if length reserved_word_list = 0 then Inl AssertionError
      else if unprocessed_columns = 0 then Inl AssertionError
      else osc_scan opt reserved_word_list columns unprocessed_columns 0 0 0 0 0)"

subsection \<open>Grouping the words\<close>

text \<open>
  \<open>d.setdefault(key, []).append(item)\<close> on a dictionary kept as an association list in
  insertion order: the item joins the list of its key, or opens a new entry at the end.
\<close>

fun setdefault_append :: "'k \<Rightarrow> 'v \<Rightarrow> ('k \<times> 'v list) list \<Rightarrow> ('k \<times> 'v list) list" where
  "setdefault_append key item [] = [(key, [item])]"
| "setdefault_append key item ((k, items) # d) =
     (if k = key then (k, items @ [item]) # d else (k, items) # setdefault_append key item d)"

text \<open>
  \<open>sorted(column_dict.items())\<close>: the keys are distinct, so the entries are ordered by
  key alone, a character compared by its code.
\<close>

definition split_list_per_column ::
  "reserved_word list \<Rightarrow> nat \<Rightarrow> error + (char \<times> reserved_word list) list"
where
  "split_list_per_column reserved_word_list column =
     (if length reserved_word_list = 0 then Inl AssertionError
      else if \<exists>(index, word) \<in> set reserved_word_list. length word \<le> column then Inl IndexError
      else
        let column_dict = fold (\<lambda>item d. setdefault_append (snd item ! column) item d)
                               reserved_word_list []
        in Inr (sort_key (\<lambda>(char, items). (of_char char :: nat)) column_dict))"

definition split_list_per_length ::
  "reserved_word list \<Rightarrow> error + (nat \<times> reserved_word list) list"
where
  "split_list_per_length reserved_word_list =
     (if length reserved_word_list = 0 then Inl AssertionError
      else
        let length_dict = fold (\<lambda>item d. setdefault_append (length (snd item)) item d)
                               reserved_word_list []
        in Inr (sort_key fst length_dict))"

subsection \<open>The lines the generator writes\<close>

text \<open>
  The format strings of the source, one definition for each. \<open>join_with\<close> is
  \<open>sep.join(list)\<close>.
\<close>

fun join_with :: "string \<Rightarrow> string list \<Rightarrow> string" where
  "join_with sep [] = []"
| "join_with sep [s] = s"
| "join_with sep (s # t # rest) = s @ sep @ join_with sep (t # rest)"

definition got_match_line :: "nat \<Rightarrow> string \<Rightarrow> string" where
  "got_match_line index word = ''JSRW_GOT_MATCH('' @ str_nat index @ '') /* '' @ word @ '' */''"

definition test_guess_line :: "nat \<Rightarrow> string \<Rightarrow> string" where
  "test_guess_line index word = ''JSRW_TEST_GUESS('' @ str_nat index @ '') /* '' @ word @ '' */''"

definition cond_text :: "nat \<Rightarrow> char \<Rightarrow> string" where
  "cond_text column c = ''JSRW_AT('' @ str_nat column @ '')=='' @ py_repr_char c"

definition if_conds_line :: "string list \<Rightarrow> string" where
  "if_conds_line conds = ''if ('' @ join_with '' && '' conds @ '') {''"

definition switch_at_line :: "nat \<Rightarrow> string" where
  "switch_at_line column = ''switch (JSRW_AT('' @ str_nat column @ '')) {''"

definition if_at_line :: "nat \<Rightarrow> char \<Rightarrow> string" where
  "if_at_line column c = ''if (JSRW_AT('' @ str_nat column @ '') == '' @ py_repr_char c @ '') {''"

definition case_char_line :: "char \<Rightarrow> string" where
  "case_char_line c = ''  case '' @ py_repr_char c @ '':''"

definition if_length_line :: "nat \<Rightarrow> string" where
  "if_length_line n = ''if (JSRW_LENGTH() == '' @ str_nat n @ '') {''"

definition case_length_line :: "nat \<Rightarrow> string" where
  "case_length_line n = ''  case '' @ str_nat n @ '':''"

subsection \<open>\<open>generate_letter_switch\<close>\<close>

text \<open>
  \<open>columns_arg\<close> is the optional parameter \<open>columns\<close>, \<open>None\<close> when the caller
  leaves it out. \<open>None\<close> and the empty list are both false in \<open>if not columns\<close>, and
  \<open>range(0, unprocessed_columns)\<close> takes their place.
\<close>

definition columns_or_range :: "nat list option \<Rightarrow> nat \<Rightarrow> nat list" where
  "columns_or_range columns_arg unprocessed_columns =
     (case columns_arg of
        None \<Rightarrow> [0..<unprocessed_columns]
      | Some columns \<Rightarrow> (if columns = [] then [0..<unprocessed_columns] else columns))"

text \<open>
  The result is the error raised, if any, and the options with the sink as the generator
  left it. \<open>gls_branches\<close> is the loop
  \<open>for char, reserved_word_list_per_column in list_per_column\<close>. An exception leaves
  the function at once, with the indentation as it is at that point.
\<close>

function generate_letter_switch ::
    "opt \<Rightarrow> nat \<Rightarrow> reserved_word list \<Rightarrow> nat list option \<Rightarrow> error option \<times> opt"
  and gls_branches ::
    "opt \<Rightarrow> nat \<Rightarrow> bool \<Rightarrow> nat \<Rightarrow> nat list \<Rightarrow> (char \<times> reserved_word list) list \<Rightarrow> error option \<times> opt"
where
  "generate_letter_switch opt unprocessed_columns reserved_word_list columns_arg =
     (if length reserved_word_list = 0 then (Some AssertionError, opt)
      else
        let columns = columns_or_range columns_arg unprocessed_columns in
        if length reserved_word_list = 1 then
          (let (index, word) = hd reserved_word_list in
           if unprocessed_columns = 0 then (None, line opt (got_match_line index word))
           else if int unprocessed_columns > char_tail_test_threshold opt
             then (None, line opt (test_guess_line index word))
           else if \<exists>column \<in> set (take unprocessed_columns columns). length word \<le> column
             then (Some IndexError, opt)
           else
             let conds = map (\<lambda>column. cond_text column (word ! column))
                             (take unprocessed_columns columns);
                 opt = line opt (if_conds_line conds);
                 opt = indent opt;
                 opt = line opt (got_match_line index word);
                 opt = dedent opt;
                 opt = line opt ''}'';
                 opt = line opt ''JSRW_NO_MATCH()''
             in (None, opt))
        else if unprocessed_columns = 0 then (Some AssertionError, opt)
        else
          (case optimal_switch_column opt reserved_word_list columns unprocessed_columns of
             Inl e \<Rightarrow> (Some e, opt)
           | Inr (optimal_column_index, use_if) \<Rightarrow>
               (if length columns \<le> optimal_column_index then (Some IndexError, opt)
                else if length columns \<le> unprocessed_columns - 1 then (Some IndexError, opt)
                else
                  let optimal_column = columns ! optimal_column_index;
                      columns = columns[optimal_column_index := columns ! (unprocessed_columns - 1)]
                  in
                  (case split_list_per_column reserved_word_list optimal_column of
                     Inl e \<Rightarrow> (Some e, opt)
                   | Inr list_per_column \<Rightarrow>
                       (let opt = (if \<not> use_if then line opt (switch_at_line optimal_column)
                                   else opt)
                        in
                        (case gls_branches opt (unprocessed_columns - 1) use_if optimal_column
                                columns list_per_column of
                           (Some e, opt) \<Rightarrow> (Some e, opt)
                         | (None, opt) \<Rightarrow>
                             (let opt = (if \<not> use_if then line opt ''}'' else opt)
                              in (None, line opt ''JSRW_NO_MATCH()''))))))))"
| "gls_branches opt unprocessed_columns use_if optimal_column columns [] = (None, opt)"
| "gls_branches opt unprocessed_columns use_if optimal_column columns
       ((char, reserved_word_list_per_column) # list_per_column) =
     (let opt = (if use_if then line opt (if_at_line optimal_column char)
                 else line opt (case_char_line char));
          opt = indent opt
      in
      (case generate_letter_switch opt unprocessed_columns reserved_word_list_per_column
              (Some columns) of
         (Some e, opt) \<Rightarrow> (Some e, opt)
       | (None, opt) \<Rightarrow>
           (let opt = dedent opt;
                opt = (if use_if then line opt ''}'' else opt)
            in gls_branches opt unprocessed_columns use_if optimal_column columns list_per_column)))"
  by pat_completeness auto
termination
  apply (relation "measures [\<lambda>x. case x of Inl (opt, n, ws, cs) \<Rightarrow> n | Inr (opt, n, b, c, cs, gs) \<Rightarrow> n,
                             \<lambda>x. case x of Inl (opt, n, ws, cs) \<Rightarrow> 0 | Inr (opt, n, b, c, cs, gs) \<Rightarrow> Suc (length gs)]")
  apply auto
  done


declare generate_letter_switch.simps [simp del]

subsection \<open>\<open>generate_switch\<close> and \<open>main\<close>\<close>

text \<open>
  \<open>gs_branches\<close> is the loop over \<open>list_per_length\<close>, \<open>write_header\<close> the lines 162 to
  169 of the source, which write the comment at the head of the output.
\<close>

fun gs_branches ::
  "opt \<Rightarrow> bool \<Rightarrow> (nat \<times> reserved_word list) list \<Rightarrow> error option \<times> opt"
where
  "gs_branches opt use_if [] = (None, opt)"
| "gs_branches opt use_if ((word_length, reserved_word_list_per_length) # list_per_length) =
     (let opt = (if use_if then line opt (if_length_line word_length)
                 else line opt (case_length_line word_length));
          opt = indent opt
      in
      (case generate_letter_switch opt word_length reserved_word_list_per_length None of
         (Some e, opt) \<Rightarrow> (Some e, opt)
       | (None, opt) \<Rightarrow>
           (let opt = dedent opt;
                opt = (if use_if then line opt ''}'' else opt)
            in gs_branches opt use_if list_per_length)))"

definition write_header :: "opt \<Rightarrow> reserved_word list \<Rightarrow> opt" where
  "write_header opt reserved_word_list =
     (let opt = line opt ''/*'';
          opt = line opt ('' * Generating switch for the list of ''
                          @ str_nat (length reserved_word_list) @ '' entries:'');
          opt = fold (\<lambda>(index, word) opt. line opt ('' * '' @ word)) reserved_word_list opt
      in line opt '' */'')"

definition generate_switch :: "opt \<Rightarrow> reserved_word list \<Rightarrow> error option \<times> opt" where
  "generate_switch opt reserved_word_list =
     (if length reserved_word_list = 0 then (Some AssertionError, opt)
      else
        let opt = write_header opt reserved_word_list in
        (case split_list_per_length reserved_word_list of
           Inl e \<Rightarrow> (Some e, opt)
         | Inr list_per_length \<Rightarrow>
             (let use_if = (int (length list_per_length) < use_if_threshold opt);
                  opt = (if \<not> use_if then line opt ''switch (JSRW_LENGTH()) {'' else opt)
              in
              (case gs_branches opt use_if list_per_length of
                 (Some e, opt) \<Rightarrow> (Some e, opt)
               | (None, opt) \<Rightarrow>
                   (let opt = (if \<not> use_if then line opt ''}'' else opt)
                    in (None, line opt ''JSRW_NO_MATCH()''))))))"

text \<open>
  \<open>main\<close> builds the options and calls \<open>generate_switch\<close> on the list that
  \<open>ReservedWordReader.read_reserved_word_list\<close> returns. The reader is not part of
  these sources, so the list is a parameter here; \<open>out\<close> is what the sink holds
  before the call.
\<close>

definition main_opt :: "string \<Rightarrow> opt" where
  "main_opt out = \<lparr>indent_level = 1, use_if_threshold = 3, char_tail_test_threshold = 4,
                   output_sink = out\<rparr>"

definition main :: "string \<Rightarrow> reserved_word list \<Rightarrow> error option \<times> opt" where
  "main out reserved_word_list = generate_switch (main_opt out) reserved_word_list"

subsection \<open>The emitted procedure as a syntax tree\<close>

text \<open>
  To say what the emitted text does on a candidate string, the same generator is written
  once more with a syntax tree as its result: \<open>letter_stmts\<close> follows
  \<open>generate_letter_switch\<close> branch by branch and returns the statements where the
  source writes their lines. \<open>render_block\<close> turns the statements back into text, and
  the lemmas \<open>generate_letter_switch_renders\<close> and \<open>generate_switch_renders\<close> below
  show that this text is what the source writes. The renderer spells the concrete syntax
  of every statement out by itself; it shares with the generator only the formatting of a
  number (\<open>str_nat\<close>) and of a character (\<open>py_repr_char\<close>).
\<close>

datatype scrutinee = JSRW_LENGTH | JSRW_AT nat

datatype label = OfLength nat | OfChar char

datatype stmt =
    JSRW_GOT_MATCH nat string
  | JSRW_TEST_GUESS nat string
  | JSRW_NO_MATCH
  | IfAll "(nat \<times> char) list" "stmt list"
  | IfEq scrutinee label "stmt list"
  | SwitchOn scrutinee "(label \<times> stmt list) list"

definition text_line :: "int \<Rightarrow> string \<Rightarrow> string" where
  "text_line level s = indentation level @ s @ [CHR 0x0A]"

definition scrutinee_text :: "scrutinee \<Rightarrow> string" where
  "scrutinee_text e = (case e of JSRW_LENGTH \<Rightarrow> ''JSRW_LENGTH()''
                        | JSRW_AT column \<Rightarrow> ''JSRW_AT('' @ str_nat column @ '')'')"

definition label_text :: "label \<Rightarrow> string" where
  "label_text l = (case l of OfLength n \<Rightarrow> str_nat n | OfChar c \<Rightarrow> py_repr_char c)"

definition if_line :: "scrutinee \<Rightarrow> label \<Rightarrow> string" where
  "if_line e l = ''if ('' @ scrutinee_text e @ '' == '' @ label_text l @ '') {''"

definition switch_line :: "scrutinee \<Rightarrow> string" where
  "switch_line e = ''switch ('' @ scrutinee_text e @ '') {''"

definition case_line :: "label \<Rightarrow> string" where
  "case_line l = ''  case '' @ label_text l @ '':''"

text \<open>The tests of a conjunction, joined by \<open>&&\<close>.\<close>

fun conds_text :: "(nat \<times> char) list \<Rightarrow> string" where
  "conds_text [] = []"
| "conds_text [(column, c)] = scrutinee_text (JSRW_AT column) @ ''=='' @ label_text (OfChar c)"
| "conds_text ((column, c) # t # rest) =
     scrutinee_text (JSRW_AT column) @ ''=='' @ label_text (OfChar c) @ '' && ''
     @ conds_text (t # rest)"

fun render_stmt :: "int \<Rightarrow> stmt \<Rightarrow> string"
  and render_block :: "int \<Rightarrow> stmt list \<Rightarrow> string"
  and render_cases :: "int \<Rightarrow> (label \<times> stmt list) list \<Rightarrow> string"
where
  "render_stmt lvl (JSRW_GOT_MATCH index word) =
     text_line lvl (''JSRW_GOT_MATCH('' @ str_nat index @ '') /* '' @ word @ '' */'')"
| "render_stmt lvl (JSRW_TEST_GUESS index word) =
     text_line lvl (''JSRW_TEST_GUESS('' @ str_nat index @ '') /* '' @ word @ '' */'')"
| "render_stmt lvl JSRW_NO_MATCH = text_line lvl ''JSRW_NO_MATCH()''"
| "render_stmt lvl (IfAll conds body) =
     text_line lvl (''if ('' @ conds_text conds @ '') {'')
     @ render_block (lvl + 1) body @ text_line lvl ''}''"
| "render_stmt lvl (IfEq e l body) =
     text_line lvl (if_line e l)
     @ render_block (lvl + 1) body @ text_line lvl ''}''"
| "render_stmt lvl (SwitchOn e cases) =
     text_line lvl (switch_line e)
     @ render_cases lvl cases @ text_line lvl ''}''"
| "render_block lvl [] = []"
| "render_block lvl (s # ss) = render_stmt lvl s @ render_block lvl ss"
| "render_cases lvl [] = []"
| "render_cases lvl ((l, body) # cases) =
     text_line lvl (case_line l) @ render_block (lvl + 1) body
     @ render_cases lvl cases"

text \<open>
  Modelled from the spec: the primitives \<open>JSRW_LENGTH\<close>, \<open>JSRW_AT\<close>,
  \<open>JSRW_GOT_MATCH\<close>, \<open>JSRW_TEST_GUESS\<close> and \<open>JSRW_NO_MATCH\<close> are macros of the
  hand-written recognizer that includes the generated text; they are not part of these
  sources. The spec gives their meaning (section 6): the length of the candidate, its
  character at a 0-based offset, and three ways to end the procedure. \<open>if\<close> and
  \<open>switch\<close> are those of C: a \<open>case\<close> that does not end the procedure falls through to
  the next one, and a block that does not end the procedure is followed by the next
  statement. A read beyond the end of the candidate ends the run with \<open>OUT_OF_RANGE\<close>;
  \<open>&&\<close> evaluates from left to right and stops at the first test that fails.
\<close>

datatype outcome = MATCH nat | GUESS_MATCH nat | NO_MATCH | OUT_OF_RANGE

definition eval_scrutinee :: "string \<Rightarrow> scrutinee \<Rightarrow> label option" where
  "eval_scrutinee s e =
     (case e of JSRW_LENGTH \<Rightarrow> Some (OfLength (length s))
      | JSRW_AT column \<Rightarrow> (if column < length s then Some (OfChar (s ! column)) else None))"

fun eval_conds :: "string \<Rightarrow> (nat \<times> char) list \<Rightarrow> bool option" where
  "eval_conds s [] = Some True"
| "eval_conds s ((column, c) # conds) =
     (case eval_scrutinee s (JSRW_AT column) of
        None \<Rightarrow> None
      | Some l \<Rightarrow> (if l = OfChar c then eval_conds s conds else Some False))"

fun exec_stmt :: "string \<Rightarrow> stmt \<Rightarrow> outcome option"
  and exec_block :: "string \<Rightarrow> stmt list \<Rightarrow> outcome option"
  and exec_cases :: "string \<Rightarrow> label \<Rightarrow> bool \<Rightarrow> (label \<times> stmt list) list \<Rightarrow> outcome option"
where
  "exec_stmt s (JSRW_GOT_MATCH index word) = Some (MATCH index)"
| "exec_stmt s (JSRW_TEST_GUESS index word) = Some (GUESS_MATCH index)"
| "exec_stmt s JSRW_NO_MATCH = Some NO_MATCH"
| "exec_stmt s (IfAll conds body) =
     (case eval_conds s conds of
        None \<Rightarrow> Some OUT_OF_RANGE
      | Some b \<Rightarrow> (if b then exec_block s body else None))"
| "exec_stmt s (IfEq e l body) =
     (case eval_scrutinee s e of
        None \<Rightarrow> Some OUT_OF_RANGE
      | Some v \<Rightarrow> (if v = l then exec_block s body else None))"
| "exec_stmt s (SwitchOn e cases) =
     (case eval_scrutinee s e of
        None \<Rightarrow> Some OUT_OF_RANGE
      | Some v \<Rightarrow> exec_cases s v False cases)"
| "exec_block s [] = None"
| "exec_block s (st # rest) =
     (case exec_stmt s st of Some r \<Rightarrow> Some r | None \<Rightarrow> exec_block s rest)"
| "exec_cases s v entered [] = None"
| "exec_cases s v entered ((l, body) # cases) =
     (if entered \<or> l = v then
        (case exec_block s body of Some r \<Rightarrow> Some r | None \<Rightarrow> exec_cases s v True cases)
      else exec_cases s v False cases)"

function letter_stmts ::
    "opt \<Rightarrow> nat \<Rightarrow> reserved_word list \<Rightarrow> nat list option \<Rightarrow> error + stmt list"
  and letter_branches ::
    "opt \<Rightarrow> nat \<Rightarrow> nat list \<Rightarrow> (char \<times> reserved_word list) list \<Rightarrow> error + (label \<times> stmt list) list"
where
  "letter_stmts opt unprocessed_columns reserved_word_list columns_arg =
     (if length reserved_word_list = 0 then Inl AssertionError
      else
        let columns = columns_or_range columns_arg unprocessed_columns in
        if length reserved_word_list = 1 then
          (let (index, word) = hd reserved_word_list in
           if unprocessed_columns = 0 then Inr [JSRW_GOT_MATCH index word]
           else if int unprocessed_columns > char_tail_test_threshold opt
             then Inr [JSRW_TEST_GUESS index word]
           else if \<exists>column \<in> set (take unprocessed_columns columns). length word \<le> column
             then Inl IndexError
           else
             Inr [IfAll (map (\<lambda>column. (column, word ! column))
                             (take unprocessed_columns columns))
                        [JSRW_GOT_MATCH index word],
                  JSRW_NO_MATCH])
        else if unprocessed_columns = 0 then Inl AssertionError
        else
          (case optimal_switch_column opt reserved_word_list columns unprocessed_columns of
             Inl e \<Rightarrow> Inl e
           | Inr (optimal_column_index, use_if) \<Rightarrow>
               (if length columns \<le> optimal_column_index then Inl IndexError
                else if length columns \<le> unprocessed_columns - 1 then Inl IndexError
                else
                  let optimal_column = columns ! optimal_column_index;
                      columns = columns[optimal_column_index := columns ! (unprocessed_columns - 1)]
                  in
                  (case split_list_per_column reserved_word_list optimal_column of
                     Inl e \<Rightarrow> Inl e
                   | Inr list_per_column \<Rightarrow>
                       (case letter_branches opt (unprocessed_columns - 1) columns list_per_column of
                          Inl e \<Rightarrow> Inl e
                        | Inr branches \<Rightarrow>
                            (if use_if then
                               Inr (map (\<lambda>(l, body). IfEq (JSRW_AT optimal_column) l body) branches
                                    @ [JSRW_NO_MATCH])
                             else
                               Inr [SwitchOn (JSRW_AT optimal_column) branches, JSRW_NO_MATCH]))))))"
| "letter_branches opt unprocessed_columns columns [] = Inr []"
| "letter_branches opt unprocessed_columns columns
       ((char, reserved_word_list_per_column) # list_per_column) =
     (case letter_stmts opt unprocessed_columns reserved_word_list_per_column (Some columns) of
        Inl e \<Rightarrow> Inl e
      | Inr body \<Rightarrow>
          (case letter_branches opt unprocessed_columns columns list_per_column of
             Inl e \<Rightarrow> Inl e
           | Inr branches \<Rightarrow> Inr ((OfChar char, body) # branches)))"
  by pat_completeness auto
termination
  apply (relation "measures [\<lambda>x. case x of Inl (opt, n, ws, cs) \<Rightarrow> n | Inr (opt, n, cs, gs) \<Rightarrow> n,
                             \<lambda>x. case x of Inl (opt, n, ws, cs) \<Rightarrow> 0 | Inr (opt, n, cs, gs) \<Rightarrow> Suc (length gs)]")
  apply auto
  done

declare letter_stmts.simps [simp del]

fun length_branches ::
  "opt \<Rightarrow> (nat \<times> reserved_word list) list \<Rightarrow> error + (label \<times> stmt list) list"
where
  "length_branches opt [] = Inr []"
| "length_branches opt ((word_length, reserved_word_list_per_length) # list_per_length) =
     (case letter_stmts opt word_length reserved_word_list_per_length None of
        Inl e \<Rightarrow> Inl e
      | Inr body \<Rightarrow>
          (case length_branches opt list_per_length of
             Inl e \<Rightarrow> Inl e
           | Inr branches \<Rightarrow> Inr ((OfLength word_length, body) # branches)))"

definition switch_stmts :: "opt \<Rightarrow> reserved_word list \<Rightarrow> error + stmt list" where
  "switch_stmts opt reserved_word_list =
     (if length reserved_word_list = 0 then Inl AssertionError
      else
        (case split_list_per_length reserved_word_list of
           Inl e \<Rightarrow> Inl e
         | Inr list_per_length \<Rightarrow>
             (case length_branches opt list_per_length of
                Inl e \<Rightarrow> Inl e
              | Inr branches \<Rightarrow>
                  (if int (length list_per_length) < use_if_threshold opt then
                     Inr (map (\<lambda>(l, body). IfEq JSRW_LENGTH l body) branches @ [JSRW_NO_MATCH])
                   else Inr [SwitchOn JSRW_LENGTH branches, JSRW_NO_MATCH]))))"

subsection \<open>The leaf a candidate string reaches\<close>

text \<open>
  \<open>letter_leaf\<close> follows \<open>generate_letter_switch\<close> into the one branch whose character
  is that of the string \<open>s\<close> at the chosen column, down to the call that has a single
  candidate left, and returns that call's \<open>unprocessed_columns\<close> and word list.
  \<open>switch_leaf\<close> starts it from the group of \<open>generate_switch\<close> that has the length of
  \<open>s\<close>.
\<close>

function letter_leaf ::
  "opt \<Rightarrow> nat \<Rightarrow> reserved_word list \<Rightarrow> nat list option \<Rightarrow> string
     \<Rightarrow> (nat \<times> reserved_word list) option"
where
  "letter_leaf opt unprocessed_columns reserved_word_list columns_arg s =
     (if length reserved_word_list = 0 then None
      else
        let columns = columns_or_range columns_arg unprocessed_columns in
        if length reserved_word_list = 1 then Some (unprocessed_columns, reserved_word_list)
        else if unprocessed_columns = 0 then None
        else
          (case optimal_switch_column opt reserved_word_list columns unprocessed_columns of
             Inl e \<Rightarrow> None
           | Inr (optimal_column_index, use_if) \<Rightarrow>
               (if length columns \<le> optimal_column_index then None
                else if length columns \<le> unprocessed_columns - 1 then None
                else
                  let optimal_column = columns ! optimal_column_index;
                      columns = columns[optimal_column_index := columns ! (unprocessed_columns - 1)]
                  in
                  (case split_list_per_column reserved_word_list optimal_column of
                     Inl e \<Rightarrow> None
                   | Inr list_per_column \<Rightarrow>
                       (if length s \<le> optimal_column then None
                        else
                          (case map_of list_per_column (s ! optimal_column) of
                             None \<Rightarrow> None
                           | Some reserved_word_list_per_column \<Rightarrow>
                               letter_leaf opt (unprocessed_columns - 1)
                                 reserved_word_list_per_column (Some columns) s))))))"
  by pat_completeness auto
termination
  by (relation "measure (\<lambda>(opt, n, ws, cs, s). n)") auto

declare letter_leaf.simps [simp del]

definition switch_leaf ::
  "opt \<Rightarrow> reserved_word list \<Rightarrow> string \<Rightarrow> (nat \<times> reserved_word list) option"
where
  "switch_leaf opt reserved_word_list s =
     (case split_list_per_length reserved_word_list of
        Inl e \<Rightarrow> None
      | Inr list_per_length \<Rightarrow>
          (case map_of list_per_length (length s) of
             None \<Rightarrow> None
           | Some reserved_word_list_per_length \<Rightarrow>
               letter_leaf opt (length s) reserved_word_list_per_length None s))"

subsection \<open>The columns tested along the paths of the tree\<close>

text \<open>
  A path runs from the first statement of the procedure into one branch of each dispatch
  it passes, down to a statement that ends the procedure. The branches of one dispatch
  (the \<open>if\<close> statements of a chain, the cases of a \<open>switch\<close>) are alternatives: a path
  takes one of them and counts the dispatch column once. \<open>column_paths\<close> lists, for
  every path, the columns that \<open>JSRW_AT\<close> reads along it.
\<close>

fun stmt_paths :: "stmt \<Rightarrow> nat list list"
  and column_paths :: "stmt list \<Rightarrow> nat list list"
  and cases_paths :: "(label \<times> stmt list) list \<Rightarrow> nat list list"
where
  "stmt_paths (JSRW_GOT_MATCH index word) = [[]]"
| "stmt_paths (JSRW_TEST_GUESS index word) = [[]]"
| "stmt_paths JSRW_NO_MATCH = [[]]"
| "stmt_paths (IfAll conds body) = map (\<lambda>p. map fst conds @ p) (column_paths body)"
| "stmt_paths (IfEq e l body) =
     (case e of JSRW_LENGTH \<Rightarrow> column_paths body
      | JSRW_AT column \<Rightarrow> map (\<lambda>p. column # p) (column_paths body))"
| "stmt_paths (SwitchOn e cases) =
     (case e of JSRW_LENGTH \<Rightarrow> cases_paths cases
      | JSRW_AT column \<Rightarrow> map (\<lambda>p. column # p) (cases_paths cases))"
| "column_paths [] = []"
| "column_paths (st # rest) = stmt_paths st @ column_paths rest"
| "cases_paths [] = []"
| "cases_paths ((l, body) # cases) = column_paths body @ cases_paths cases"

subsection \<open>What a successful run leaves in the sink\<close>

text \<open>
  \<open>header_text\<close> is the comment that \<open>write_header\<close> writes, as text; \<open>emit\<close> appends
  the rendering of a statement list at the current indentation.
\<close>

definition header_lines :: "reserved_word list \<Rightarrow> string list" where
  "header_lines reserved_word_list =
     [''/*'',
      '' * Generating switch for the list of '' @ str_nat (length reserved_word_list)
        @ '' entries:'']
     @ map (\<lambda>(index, word). '' * '' @ word) reserved_word_list
     @ ['' */'']"

definition header_text :: "int \<Rightarrow> reserved_word list \<Rightarrow> string" where
  "header_text lvl reserved_word_list = concat (map (text_line lvl) (header_lines reserved_word_list))"

definition emit :: "opt \<Rightarrow> string \<Rightarrow> opt" where
  "emit opt text = opt\<lparr>output_sink := output_sink opt @ text\<rparr>"

subsection \<open>Span and count of a column; the invariant of the scan\<close>

text \<open>
  The two measures of a column in the words of the spec (section 4.2 and the glossary),
  written without reference to \<open>span_and_count_at\<close>: the number of distinct characters
  that the candidate words have at the column, and the span, the greatest character code
  there minus the least plus one. The lemma \<open>span_and_count_at_meaning\<close> below shows
  that these are the two numbers the code computes.
\<close>

definition distinct_char_count :: "reserved_word list \<Rightarrow> nat \<Rightarrow> nat" where
  "distinct_char_count reserved_word_list column =
     card ((\<lambda>(index, word). word ! column) ` set reserved_word_list)"

definition char_span :: "reserved_word list \<Rightarrow> nat \<Rightarrow> int" where
  "char_span reserved_word_list column =
     (let codes = (\<lambda>(index, word). (of_char (word ! column) :: int)) ` set reserved_word_list
      in Max codes - Min codes + 1)"

text \<open>
  \<open>scan_inv V i m mi\<close> says that, after the scan has passed the indices below
  \<open>i\<close>, the running minimum \<open>m\<close> is the value at index \<open>mi\<close>, no index below \<open>i\<close> has
  a smaller value and no index below \<open>mi\<close> has one as small.
\<close>

definition scan_inv :: "(nat \<Rightarrow> int) \<Rightarrow> nat \<Rightarrow> int \<Rightarrow> nat \<Rightarrow> bool" where
  "scan_inv V i m mi = (mi < i \<and> m = V mi \<and> (\<forall>j<i. V mi \<le> V j) \<and> (\<forall>j<mi. V mi < V j))"

subsection \<open>Devices of the proofs: the text of a dispatch, the plan of a node\<close>

text \<open>The text of the branches of one dispatch, in either mode.\<close>

definition branches_text :: "int \<Rightarrow> bool \<Rightarrow> scrutinee \<Rightarrow> (label \<times> stmt list) list \<Rightarrow> string" where
  "branches_text lvl use_if e branches =
     (if use_if then render_block lvl (map (\<lambda>(l, body). IfEq e l body) branches)
      else render_cases lvl branches)"

definition linked :: "opt \<Rightarrow> opt \<Rightarrow> nat \<Rightarrow> reserved_word list \<Rightarrow> nat list option \<Rightarrow> bool" where
  "linked opt0 opt n ws ca =
     (case letter_stmts opt0 n ws ca of
        Inr stmts \<Rightarrow> generate_letter_switch opt n ws ca
                       = (None, emit opt (render_block (indent_level opt) stmts))
      | Inl e \<Rightarrow> fst (generate_letter_switch opt n ws ca) = Some e)"

datatype plan =
    Fail error
  | Single nat string "nat list"
  | Dispatch nat bool "nat list" "(char \<times> reserved_word list) list"

definition node_plan :: "opt \<Rightarrow> nat \<Rightarrow> reserved_word list \<Rightarrow> nat list option \<Rightarrow> plan" where
  "node_plan opt n ws ca =
     (if length ws = 0 then Fail AssertionError
      else
        let columns = columns_or_range ca n in
        if length ws = 1 then (let (index, word) = hd ws in Single index word columns)
        else if n = 0 then Fail AssertionError
        else
          (case optimal_switch_column opt ws columns n of
             Inl e \<Rightarrow> Fail e
           | Inr (k, use_if) \<Rightarrow>
               (if length columns \<le> k then Fail IndexError
                else if length columns \<le> n - 1 then Fail IndexError
                else
                  (case split_list_per_column ws (columns ! k) of
                     Inl e \<Rightarrow> Fail e
                   | Inr groups \<Rightarrow>
                       Dispatch (columns ! k) use_if (columns[k := columns ! (n - 1)]) groups))))"

definition single_stmts :: "opt \<Rightarrow> nat \<Rightarrow> nat \<Rightarrow> string \<Rightarrow> nat list \<Rightarrow> error + stmt list" where
  "single_stmts opt n index word columns =
     (if n = 0 then Inr [JSRW_GOT_MATCH index word]
      else if int n > char_tail_test_threshold opt then Inr [JSRW_TEST_GUESS index word]
      else if \<exists>column \<in> set (take n columns). length word \<le> column then Inl IndexError
      else Inr [IfAll (map (\<lambda>column. (column, word ! column)) (take n columns))
                      [JSRW_GOT_MATCH index word],
                JSRW_NO_MATCH])"

definition dispatch_stmts :: "nat \<Rightarrow> bool \<Rightarrow> (label \<times> stmt list) list \<Rightarrow> stmt list" where
  "dispatch_stmts col use_if branches =
     (if use_if then map (\<lambda>(l, body). IfEq (JSRW_AT col) l body) branches @ [JSRW_NO_MATCH]
      else [SwitchOn (JSRW_AT col) branches, JSRW_NO_MATCH])"

definition switch_dispatch :: "bool \<Rightarrow> (label \<times> stmt list) list \<Rightarrow> stmt list" where
  "switch_dispatch use_if branches =
     (if use_if then map (\<lambda>(l, body). IfEq JSRW_LENGTH l body) branches @ [JSRW_NO_MATCH]
      else [SwitchOn JSRW_LENGTH branches, JSRW_NO_MATCH])"

subsection \<open>The invariant of a node\<close>

definition node_ok :: "nat \<Rightarrow> nat \<Rightarrow> reserved_word list \<Rightarrow> nat list \<Rightarrow> bool" where
  "node_ok L n ws cols =
     (ws \<noteq> [] \<and> distinct (map snd ws) \<and> (\<forall>x\<in>set ws. length (snd x) = L)
      \<and> n \<le> length cols \<and> distinct (take n cols) \<and> (\<forall>c\<in>set (take n cols). c < L)
      \<and> (\<forall>p<L. p \<notin> set (take n cols) \<longrightarrow> (\<forall>x\<in>set ws. \<forall>y\<in>set ws. snd x ! p = snd y ! p)))"

subsection \<open>Two listings of one corpus\<close>

text \<open>
  Two listings of one corpus: each lists every pair once, and they list the same pairs.
  The external reader may hand the pairs to \<open>main\<close> in either order.
\<close>

definition reordered :: "reserved_word list \<Rightarrow> reserved_word list \<Rightarrow> bool" where
  "reordered ws ws' = (distinct ws \<and> distinct ws' \<and> set ws = set ws')"

section \<open>Properties\<close>

subsection \<open>The empty word list\<close>

text \<open>
  C9. Called on an empty reserved-word list, \<open>generate_switch\<close> raises the assertion
  error of its first line and returns the options as it received them: nothing has been
  written to the sink. The same holds through \<open>main\<close>, whose sink still holds exactly
  what it held before.
\<close>

theorem generate_switch_empty_aborts:
  "generate_switch opt [] = (Some AssertionError, opt) \<and> output_sink (snd (main out [])) = out"
  by (simp add: generate_switch_def main_def main_opt_def)

subsection \<open>A shared column that is not the one selected\<close>

text \<open>
  C2. The words \<open>ab\<close> and \<open>ac\<close> share their character at column 0, the first column
  of the scan: its span and count are 1. \<open>optimal_switch_column\<close> leaves the scan there
  in if-chain mode, but the index it returns is the constant 1, not the index 0 of the
  column it has just examined. The generated procedure therefore opens with a chain of
  two branches on column 1, and the shared column 0 is tested only in the conjunctions at
  the leaves.
\<close>

theorem optimal_switch_column_shared_first_column:
  "span_and_count_at [(0, ''ab''), (1, ''ac'')] 0 = Inr (1, 1)
   \<and> optimal_switch_column (main_opt []) [(0, ''ab''), (1, ''ac'')] [0, 1] 2 = Inr (1, True)
   \<and> letter_stmts (main_opt []) 2 [(0, ''ab''), (1, ''ac'')] None
       = Inr [IfEq (JSRW_AT 1) (OfChar CHR ''b'')
                [IfAll [(0, CHR ''a'')] [JSRW_GOT_MATCH 0 ''ab''], JSRW_NO_MATCH],
              IfEq (JSRW_AT 1) (OfChar CHR ''c'')
                [IfAll [(0, CHR ''a'')] [JSRW_GOT_MATCH 1 ''ac''], JSRW_NO_MATCH],
              JSRW_NO_MATCH]"
  by code_simp

subsection \<open>Facts about \<open>span_and_count_at\<close> and the scan\<close>

lemma hd_last_single:
  "distinct xs \<Longrightarrow> xs \<noteq> [] \<Longrightarrow> (hd xs = last xs) = (length xs = 1)"
  by (cases xs) (auto simp: last_in_set split: if_splits)

lemma sorted_hd_le_last:
  "sorted xs \<Longrightarrow> xs \<noteq> [] \<Longrightarrow> hd xs \<le> (last xs :: int)"
  by (cases xs) (auto split: if_splits)

lemma length_remdups_one:
  "ys \<noteq> [] \<Longrightarrow> (length (remdups ys) = 1) = (\<forall>a\<in>set ys. \<forall>b\<in>set ys. a = b)"
proof -
  assume ne: "ys \<noteq> []"
  have "length (remdups ys) = card (set ys)" by (simp add: length_remdups_card_conv)
  moreover have "(card (set ys) = 1) = (\<forall>a\<in>set ys. \<forall>b\<in>set ys. a = b)"
  proof
    assume "card (set ys) = 1"
    then obtain x where "set ys = {x}" by (auto simp: card_1_singleton_iff)
    then show "\<forall>a\<in>set ys. \<forall>b\<in>set ys. a = b" by simp
  next
    assume eq: "\<forall>a\<in>set ys. \<forall>b\<in>set ys. a = b"
    from ne obtain y where y: "y \<in> set ys" by (cases ys) auto
    with eq have "set ys = {y}" by auto
    then show "card (set ys) = 1" by simp
  qed
  ultimately show ?thesis by simp
qed

lemma span_and_count_at_Inr:
  assumes "span_and_count_at ws c = Inr (sp, ct)"
  shows "ws \<noteq> []" and "\<forall>x \<in> set ws. c < length (snd x)"
    and "1 \<le> sp" and "1 \<le> ct" and "(sp = 1) = (ct = 1)"
    and "(ct = 1) = (\<forall>x \<in> set ws. \<forall>y \<in> set ws. snd x ! c = snd y ! c)"
proof -
  let ?ys = "map (\<lambda>x. (of_char (snd x ! c) :: int)) ws"
  let ?xs = "sort (remdups ?ys)"
  from assms show ne: "ws \<noteq> []"
    by (auto simp: span_and_count_at_def split: if_splits)
  from assms show inr: "\<forall>x \<in> set ws. c < length (snd x)"
    by (fastforce simp: span_and_count_at_def split: if_splits)
  have fn: "(\<lambda>(index, word). (of_char (word ! c) :: int)) = (\<lambda>x. of_char (snd x ! c))"
    by (simp add: fun_eq_iff)
  from assms ne inr have sp: "sp = last ?xs - hd ?xs + 1" and ct: "ct = int (length ?xs)"
    by (auto simp: span_and_count_at_def Let_def fn split: if_splits)
  have "set ?xs = set ?ys" by simp
  moreover have "set ?ys \<noteq> {}" using ne by simp
  ultimately have xne: "?xs \<noteq> []" by (metis set_empty)
  have srt: "sorted ?xs" and dst: "distinct ?xs" by simp_all
  from sorted_hd_le_last[OF srt xne] sp show "1 \<le> sp" by simp
  from xne ct show "1 \<le> ct" by (cases ?xs) auto
  have "(sp = 1) = (hd ?xs = last ?xs)" using sp by auto
  also have "\<dots> = (length ?xs = 1)" by (rule hd_last_single[OF dst xne])
  finally show "(sp = 1) = (ct = 1)" using ct by simp
  have "(ct = 1) = (length (remdups ?ys) = 1)" using ct by simp
  also have "\<dots> = (\<forall>a\<in>set ?ys. \<forall>b\<in>set ?ys. a = b)"
    using ne by (intro length_remdups_one) simp
  also have "\<dots> = (\<forall>x \<in> set ws. \<forall>y \<in> set ws. snd x ! c = snd y ! c)"
    by (simp add: of_char_eq_iff)
  finally show "(ct = 1) = (\<forall>x \<in> set ws. \<forall>y \<in> set ws. snd x ! c = snd y ! c)" .
qed

lemma span_and_count_at_total:
  "ws \<noteq> [] \<Longrightarrow> \<forall>x \<in> set ws. c < length (snd x) \<Longrightarrow> \<exists>sp ct. span_and_count_at ws c = Inr (sp, ct)"
  by (fastforce simp: span_and_count_at_def Let_def)

lemma osc_scan_end:
  "\<not> i < n \<Longrightarrow> osc_scan opt ws cols n i mc ms mci msi =
     (if mc \<le> use_if_threshold opt then Inr (mci, True) else Inr (msi, False))"
  by (subst osc_scan.simps) simp

lemma osc_scan_short: "i < n \<Longrightarrow> length cols \<le> i \<Longrightarrow> osc_scan opt ws cols n i mc ms mci msi = Inl IndexError"
  by (subst osc_scan.simps) simp

lemma osc_scan_raise:
  "i < n \<Longrightarrow> i < length cols \<Longrightarrow> span_and_count_at ws (cols ! i) = Inl e \<Longrightarrow>
   osc_scan opt ws cols n i mc ms mci msi = Inl e"
  by (subst osc_scan.simps) simp

lemma osc_scan_early:
  "i < n \<Longrightarrow> i < length cols \<Longrightarrow> span_and_count_at ws (cols ! i) = Inr (1, ct) \<Longrightarrow>
   osc_scan opt ws cols n i mc ms mci msi = Inr (1, True)"
  using span_and_count_at_Inr(5)[of ws "cols ! i" 1 ct]
  by (subst osc_scan.simps) simp

lemma osc_scan_step:
  "i < n \<Longrightarrow> i < length cols \<Longrightarrow> span_and_count_at ws (cols ! i) = Inr (sp, ct) \<Longrightarrow> sp \<noteq> 1 \<Longrightarrow>
   osc_scan opt ws cols n i mc ms mci msi =
   osc_scan opt ws cols n (Suc i)
     (if i = 0 \<or> ct < mc then ct else mc) (if i = 0 \<or> sp < ms then sp else ms)
     (if i = 0 \<or> ct < mc then i else mci) (if i = 0 \<or> sp < ms then i else msi)"
  using span_and_count_at_Inr(3,5)[of ws "cols ! i" sp ct]
  by (subst osc_scan.simps) (simp add: Let_def)

lemma osc_scan_result:
  assumes "osc_scan opt ws cols n i mc ms mci msi = Inr (k, b)" and "1 \<le> n"
    and "i = 0 \<or> (mci < n \<and> mci < length cols \<and> msi < n \<and> msi < length cols)"
  shows "(k < n \<and> k < length cols)
         \<or> (k = 1 \<and> b \<and> (\<exists>j<n. j < length cols \<and> span_and_count_at ws (cols ! j) = Inr (1, 1)))"
  using assms
proof (induction "n - i" arbitrary: i mc ms mci msi)
  case 0
  then have "\<not> i < n" by simp
  with 0 show ?case by (auto simp: osc_scan_end split: if_splits)
next
  case (Suc d)
  then have lt: "i < n" by simp
  show ?case
  proof (cases "i < length cols")
    case False
    with lt Suc.prems(1) show ?thesis by (simp add: osc_scan_short)
  next
    case True
    show ?thesis
    proof (cases "span_and_count_at ws (cols ! i)")
      case (Inl e)
      with lt True Suc.prems(1) show ?thesis by (simp add: osc_scan_raise)
    next
      case (Inr r)
      obtain sp ct where r: "r = (sp, ct)" by (cases r)
      show ?thesis
      proof (cases "sp = 1")
        case True
        with Inr r have sc: "span_and_count_at ws (cols ! i) = Inr (1, ct)" by simp
        from span_and_count_at_Inr(5)[OF sc] have "ct = 1" by simp
        with sc lt \<open>i < length cols\<close> Suc.prems(1) show ?thesis
          by (auto simp: osc_scan_early)
      next
        case False
        from Inr r have sc: "span_and_count_at ws (cols ! i) = Inr (sp, ct)" by simp
        have d: "d = n - Suc i" using Suc.hyps(2) by simp
        let ?mc = "if i = 0 \<or> ct < mc then ct else mc"
        let ?ms = "if i = 0 \<or> sp < ms then sp else ms"
        let ?mci = "if i = 0 \<or> ct < mc then i else mci"
        let ?msi = "if i = 0 \<or> sp < ms then i else msi"
        have eq: "osc_scan opt ws cols n (Suc i) ?mc ?ms ?mci ?msi = Inr (k, b)"
          using Suc.prems(1) osc_scan_step[OF lt True sc False] by simp
        have inv: "Suc i = 0 \<or> (?mci < n \<and> ?mci < length cols \<and> ?msi < n \<and> ?msi < length cols)"
          using Suc.prems(3) lt True by auto
        show ?thesis by (rule Suc.hyps(1)[OF d eq Suc.prems(2) inv])
      qed
    qed
  qed
qed

lemma osc_scan_total:
  assumes "ws \<noteq> []"
    and "\<forall>j. i \<le> j \<and> j < n \<longrightarrow> j < length cols \<and> (\<forall>x\<in>set ws. cols ! j < length (snd x))"
  shows "\<exists>k b. osc_scan opt ws cols n i mc ms mci msi = Inr (k, b)"
  using assms
proof (induction "n - i" arbitrary: i mc ms mci msi)
  case 0
  then have "\<not> i < n" by simp
  then show ?case by (cases "mc \<le> use_if_threshold opt") (auto simp: osc_scan_end)
next
  case (Suc d)
  then have lt: "i < n" by simp
  with Suc.prems(2) have len: "i < length cols" and rng: "\<forall>x\<in>set ws. cols ! i < length (snd x)"
    by auto
  from span_and_count_at_total[OF Suc.prems(1) rng]
  obtain sp ct where sc: "span_and_count_at ws (cols ! i) = Inr (sp, ct)" by blast
  show ?case
  proof (cases "sp = 1")
    case True
    with sc lt len show ?thesis by (auto simp: osc_scan_early)
  next
    case False
    have d: "d = n - Suc i" using Suc.hyps(2) by simp
    have rest: "\<forall>j. Suc i \<le> j \<and> j < n \<longrightarrow> j < length cols \<and> (\<forall>x\<in>set ws. cols ! j < length (snd x))"
      using Suc.prems(2) by auto
    show ?thesis
      unfolding osc_scan_step[OF lt len sc False]
      by (rule Suc.hyps(1)[OF d Suc.prems(1) rest])
  qed
qed

lemma nth_in_take: "j < n \<Longrightarrow> j < length xs \<Longrightarrow> xs ! j \<in> set (take n xs)"
proof -
  assume j: "j < n" "j < length xs"
  then have "j < length (take n xs)" by simp
  then have "take n xs ! j \<in> set (take n xs)" by (rule nth_mem)
  with j show ?thesis by simp
qed

lemma two_distinct_words:
  assumes "2 \<le> length ws" and "distinct (map snd ws)"
  obtains x y where "x \<in> set ws" and "y \<in> set ws" and "snd x \<noteq> snd y"
proof -
  from assms(1) obtain x y rest where ws: "ws = x # y # rest"
    by (cases ws; cases "tl ws") auto
  with assms(2) have "snd x \<noteq> snd y" by auto
  with ws that[of x y] show thesis by simp
qed

lemma differ_somewhere:
  assumes "length w = length v" and "w \<noteq> v"
  obtains p where "p < length w" and "w ! p \<noteq> v ! p"
  using assms by (metis nth_equalityI)

text \<open>
  When distinct words of one length agree everywhere outside the window of unprocessed
  columns and also at one column inside it, the window holds a second column.
\<close>

lemma shared_column_not_alone:
  assumes two: "2 \<le> length ws" and dist: "distinct (map snd ws)"
    and len: "\<forall>x\<in>set ws. length (snd x) = L"
    and agree: "\<forall>p<L. p \<notin> set (take n cols) \<longrightarrow> (\<forall>x\<in>set ws. \<forall>y\<in>set ws. snd x ! p = snd y ! p)"
    and j: "j < n" "j < length cols"
    and shared: "\<forall>x\<in>set ws. \<forall>y\<in>set ws. snd x ! (cols ! j) = snd y ! (cols ! j)"
  shows "2 \<le> n \<and> 2 \<le> length cols"
proof -
  from two dist obtain x y where xy: "x \<in> set ws" "y \<in> set ws" "snd x \<noteq> snd y"
    by (rule two_distinct_words)
  from len xy have l: "length (snd x) = length (snd y)" "length (snd x) = L" by auto
  from differ_somewhere[OF l(1) xy(3)] obtain p where p: "p < L" "snd x ! p \<noteq> snd y ! p"
    using l(2) by auto
  from agree p xy have pin: "p \<in> set (take n cols)" by blast
  from shared p xy have ne: "p \<noteq> cols ! j" by blast
  from j have cin: "cols ! j \<in> set (take n cols)" by (rule nth_in_take)
  have "2 \<le> card (set (take n cols))"
  proof -
    have "{p, cols ! j} \<subseteq> set (take n cols)" using pin cin by simp
    then have "card {p, cols ! j} \<le> card (set (take n cols))"
      by (intro card_mono) simp_all
    with ne show ?thesis by simp
  qed
  also have "\<dots> \<le> length (take n cols)" by (rule card_length)
  finally show ?thesis by simp
qed

lemma scan_inv_step:
  assumes "i = 0 \<or> scan_inv V i m mi"
  shows "scan_inv V (Suc i) (if i = 0 \<or> V i < m then V i else m) (if i = 0 \<or> V i < m then i else mi)"
proof (cases "i = 0 \<or> V i < m")
  case True
  show ?thesis
  proof (cases "i = 0")
    case True
    then show ?thesis by (simp add: scan_inv_def)
  next
    case False
    with assms have inv: "scan_inv V i m mi" by simp
    from \<open>i = 0 \<or> V i < m\<close> False have lt: "V i < m" by simp
    have "\<forall>j<i. V i < V j"
    proof (intro allI impI)
      fix j assume "j < i"
      with inv have "V mi \<le> V j" by (simp add: scan_inv_def)
      with lt inv show "V i < V j" by (simp add: scan_inv_def)
    qed
    then show ?thesis using \<open>i = 0 \<or> V i < m\<close> by (auto simp: scan_inv_def less_Suc_eq)
  qed
next
  case False
  with assms have inv: "scan_inv V i m mi" and ge: "m \<le> V i" by auto
  then show ?thesis using False by (auto simp: scan_inv_def less_Suc_eq)
qed

lemma osc_scan_minimal:
  assumes cols: "\<forall>j<n. j < length cols \<and> span_and_count_at ws (cols ! j) = Inr (S j, C j) \<and> S j \<noteq> 1"
    and "i \<le> n" and "1 \<le> n"
    and "i = 0 \<or> (scan_inv C i mc mci \<and> scan_inv S i ms msi)"
  shows "\<exists>k b. osc_scan opt ws cols n i mc ms mci msi = Inr (k, b) \<and> k < n
           \<and> (b = (\<exists>j<n. C j \<le> use_if_threshold opt))
           \<and> (b \<longrightarrow> (\<forall>j<n. C k \<le> C j) \<and> (\<forall>j<k. C k < C j))
           \<and> (\<not> b \<longrightarrow> (\<forall>j<n. S k \<le> S j) \<and> (\<forall>j<k. S k < S j))"
  using assms(2-)
proof (induction "n - i" arbitrary: i mc ms mci msi)
  case 0
  then have i: "i = n" "i \<noteq> 0" by auto
  with 0 have c: "scan_inv C n mc mci" and s: "scan_inv S n ms msi" by auto
  show ?case
  proof (cases "mc \<le> use_if_threshold opt")
    case True
    have "osc_scan opt ws cols n i mc ms mci msi = Inr (mci, True)"
      using i True by (simp add: osc_scan_end)
    moreover have "\<exists>j<n. C j \<le> use_if_threshold opt"
      using c True by (auto simp: scan_inv_def)
    ultimately show ?thesis using c by (auto simp: scan_inv_def)
  next
    case False
    have "osc_scan opt ws cols n i mc ms mci msi = Inr (msi, False)"
      using i False by (simp add: osc_scan_end)
    moreover have "\<not> (\<exists>j<n. C j \<le> use_if_threshold opt)"
    proof
      assume "\<exists>j<n. C j \<le> use_if_threshold opt"
      then obtain j where "j < n" "C j \<le> use_if_threshold opt" by blast
      moreover from c \<open>j < n\<close> have "mc \<le> C j" by (simp add: scan_inv_def)
      ultimately show False using False by simp
    qed
    ultimately show ?thesis using s by (auto simp: scan_inv_def)
  qed
next
  case (Suc d)
  then have lt: "i < n" by simp
  with cols have len: "i < length cols"
    and sc: "span_and_count_at ws (cols ! i) = Inr (S i, C i)" and ns: "S i \<noteq> 1"
    by auto
  have d: "d = n - Suc i" using Suc.hyps(2) by simp
  have le: "Suc i \<le> n" using lt by simp
  have inv: "Suc i = 0 \<or>
       (scan_inv C (Suc i) (if i = 0 \<or> C i < mc then C i else mc) (if i = 0 \<or> C i < mc then i else mci)
        \<and> scan_inv S (Suc i) (if i = 0 \<or> S i < ms then S i else ms) (if i = 0 \<or> S i < ms then i else msi))"
    using Suc.prems(3) scan_inv_step[of i C mc mci] scan_inv_step[of i S ms msi] by blast
  show ?case
    unfolding osc_scan_step[OF lt len sc ns]
    by (rule Suc.hyps(1)[OF d le Suc.prems(2) inv])
qed

lemma optimal_switch_column_in_window:
  assumes two: "2 \<le> length ws" and dist: "distinct (map snd ws)"
    and len: "\<forall>x\<in>set ws. length (snd x) = L"
    and n: "1 \<le> n"
    and agree: "\<forall>p<L. p \<notin> set (take n cols) \<longrightarrow> (\<forall>x\<in>set ws. \<forall>y\<in>set ws. snd x ! p = snd y ! p)"
  shows "(\<forall>k b. optimal_switch_column opt ws cols n = Inr (k, b) \<longrightarrow> k < n \<and> k < length cols)
       \<and> (n \<le> length cols \<and> (\<forall>c\<in>set (take n cols). c < L)
            \<longrightarrow> (\<exists>k b. optimal_switch_column opt ws cols n = Inr (k, b)))"
proof (intro conjI allI impI)
  fix k b
  assume "optimal_switch_column opt ws cols n = Inr (k, b)"
  then have scan: "osc_scan opt ws cols n 0 0 0 0 0 = Inr (k, b)"
    by (simp add: optimal_switch_column_def split: if_splits)
  have "(0::nat) = 0 \<or> ((0::nat) < n \<and> 0 < length cols \<and> (0::nat) < n \<and> 0 < length cols)"
    by simp
  from osc_scan_result[OF scan n this]
  consider "k < n \<and> k < length cols"
    | j where "k = 1" "j < n" "j < length cols" "span_and_count_at ws (cols ! j) = Inr (1, 1)"
    by blast
  then have "k < n \<and> k < length cols"
  proof cases
    case 1
    then show ?thesis .
  next
    case 2
    note sc = \<open>span_and_count_at ws (cols ! j) = Inr (1, 1)\<close>
    have sh: "\<forall>x\<in>set ws. \<forall>y\<in>set ws. snd x ! (cols ! j) = snd y ! (cols ! j)"
      using span_and_count_at_Inr(6)[OF sc] by blast
    have "2 \<le> n \<and> 2 \<le> length cols"
      using two dist len agree \<open>j < n\<close> \<open>j < length cols\<close> sh by (rule shared_column_not_alone)
    with \<open>k = 1\<close> show ?thesis by simp
  qed
  then show "k < n" and "k < length cols" by simp_all
next
  assume a: "n \<le> length cols \<and> (\<forall>c\<in>set (take n cols). c < L)"
  have ne: "ws \<noteq> []" using two by auto
  have "\<forall>j. 0 \<le> j \<and> j < n \<longrightarrow> j < length cols \<and> (\<forall>x\<in>set ws. cols ! j < length (snd x))"
  proof (intro allI impI)
    fix j assume "0 \<le> j \<and> j < n"
    with a have jl: "j < length cols" by simp
    with \<open>0 \<le> j \<and> j < n\<close> have "cols ! j \<in> set (take n cols)" by (simp add: nth_in_take)
    with jl a len show "j < length cols \<and> (\<forall>x\<in>set ws. cols ! j < length (snd x))" by auto
  qed
  from osc_scan_total[OF ne this, of opt 0 0 0 0]
  obtain k b where "osc_scan opt ws cols n 0 0 0 0 0 = Inr (k, b)" by blast
  moreover have "optimal_switch_column opt ws cols n = osc_scan opt ws cols n 0 0 0 0 0"
    using ne n by (simp add: optimal_switch_column_def)
  ultimately show "\<exists>k b. optimal_switch_column opt ws cols n = Inr (k, b)" by simp
qed

subsection \<open>The selected column when no column is shared\<close>

lemma sorted_hd_Min_set:
  "sorted xs \<Longrightarrow> xs \<noteq> [] \<Longrightarrow> hd xs = Min (set (xs :: int list))"
  by (cases xs) (auto intro!: Min_eqI[symmetric])

lemma sorted_last_Max_set:
  "sorted xs \<Longrightarrow> xs \<noteq> [] \<Longrightarrow> last xs = Max (set (xs :: int list))"
proof -
  assume s: "sorted xs" and ne: "xs \<noteq> []"
  have "\<forall>y\<in>set xs. y \<le> last xs"
    using s ne by (induction xs) (auto split: if_splits)
  with ne show ?thesis by (intro Max_eqI[symmetric]) auto
qed

lemma span_and_count_at_meaning:
  assumes ne: "ws \<noteq> []" and rng: "\<forall>x\<in>set ws. c < length (snd x)"
  shows "span_and_count_at ws c = Inr (char_span ws c, int (distinct_char_count ws c))"
proof -
  let ?f = "\<lambda>(index, word). (of_char (word ! c) :: int)"
  let ?ys = "map ?f ws"
  let ?xs = "sort (remdups ?ys)"
  have no: "\<not> (\<exists>(index, word) \<in> set ws. length word \<le> c)" using rng by fastforce
  have eq: "span_and_count_at ws c = Inr (last ?xs - hd ?xs + 1, int (length ?xs))"
    using ne no by (simp add: span_and_count_at_def Let_def)
  have sx: "set ?xs = ?f ` set ws" by simp
  have "set ?ys \<noteq> {}" using ne by simp
  then have xne: "?xs \<noteq> []" by (metis set_empty set_remdups set_sort)
  have srt: "sorted ?xs" by simp
  have h: "hd ?xs = Min (?f ` set ws)" using sorted_hd_Min_set[OF srt xne] sx by simp
  have l: "last ?xs = Max (?f ` set ws)" using sorted_last_Max_set[OF srt xne] sx by simp
  have "length ?xs = card (set ?ys)" by (simp add: length_remdups_card_conv)
  also have "set ?ys = (of_char :: char \<Rightarrow> int) ` ((\<lambda>(index, word). word ! c) ` set ws)"
    by (auto simp: image_iff)
  also have "card \<dots> = card ((\<lambda>(index, word). word ! c) ` set ws)"
    by (rule card_image) (simp add: inj_on_def of_char_eq_iff)
  finally have n: "length ?xs = distinct_char_count ws c" by (simp add: distinct_char_count_def)
  show ?thesis unfolding eq h l n by (simp add: char_span_def Let_def)
qed

text \<open>
  C7. Let every column of the window have a span (greatest code minus least plus one)
  other than 1. Then \<open>optimal_switch_column\<close> returns an index \<open>k\<close> inside the window
  with a mode \<open>b\<close> (\<open>True\<close> for the if-chain) such that: the mode is the if-chain
  exactly when some column has at most 3 distinct characters, that is when the minimal
  count of distinct characters is at most the threshold 3; in that mode the column at
  \<open>k\<close> has the minimal number of distinct characters and every earlier column of the
  scan strictly more; in switch mode the column at \<open>k\<close> has the minimal span and every
  earlier column a strictly greater one. So ties go to the first column of the scan.
\<close>

theorem optimal_switch_column_least:
  assumes thr: "use_if_threshold opt = 3"
    and ne: "ws \<noteq> []" and n: "1 \<le> n" "n \<le> length cols"
    and rng: "\<forall>j<n. \<forall>x\<in>set ws. cols ! j < length (snd x)"
    and nospan1: "\<forall>j<n. char_span ws (cols ! j) \<noteq> 1"
  shows "\<exists>k b. optimal_switch_column opt ws cols n = Inr (k, b) \<and> k < n
           \<and> (b = (\<exists>j<n. distinct_char_count ws (cols ! j) \<le> 3))
           \<and> (b \<longrightarrow> (\<forall>j<n. distinct_char_count ws (cols ! k) \<le> distinct_char_count ws (cols ! j))
                    \<and> (\<forall>j<k. distinct_char_count ws (cols ! k) < distinct_char_count ws (cols ! j)))
           \<and> (\<not> b \<longrightarrow> (\<forall>j<n. char_span ws (cols ! k) \<le> char_span ws (cols ! j))
                    \<and> (\<forall>j<k. char_span ws (cols ! k) < char_span ws (cols ! j)))"
proof -
  let ?S = "\<lambda>j. char_span ws (cols ! j)" and ?C = "\<lambda>j. int (distinct_char_count ws (cols ! j))"
  have cols: "\<forall>j<n. j < length cols \<and> span_and_count_at ws (cols ! j) = Inr (?S j, ?C j) \<and> ?S j \<noteq> 1"
  proof (intro allI impI)
    fix j assume j: "j < n"
    with rng have "\<forall>x\<in>set ws. cols ! j < length (snd x)" by simp
    from span_and_count_at_meaning[OF ne this] j n nospan1
    show "j < length cols \<and> span_and_count_at ws (cols ! j) = Inr (?S j, ?C j) \<and> ?S j \<noteq> 1"
      by simp
  qed
  have start: "(0::nat) = 0 \<or> (scan_inv ?C 0 0 0 \<and> scan_inv ?S 0 0 0)" by simp
  have eq: "optimal_switch_column opt ws cols n = osc_scan opt ws cols n 0 0 0 0 0"
    using ne n by (simp add: optimal_switch_column_def)
  from osc_scan_minimal[of n cols ws ?S ?C 0 0 0 0 0 opt, OF cols _ n(1) start]
  show ?thesis unfolding eq thr by simp
qed

theorem optimal_switch_column_least_witness:
  "optimal_switch_column (main_opt [])
     [(0, ''ax''), (1, ''bx''), (2, ''cy''), (3, ''dy'')] [0, 1] 2 = Inr (1, True)
   \<and> distinct_char_count [(0, ''ax''), (1, ''bx''), (2, ''cy''), (3, ''dy'')] 0 = 4
   \<and> distinct_char_count [(0, ''ax''), (1, ''bx''), (2, ''cy''), (3, ''dy'')] 1 = 2
   \<and> optimal_switch_column (main_opt [])
     [(0, ''aa''), (1, ''zb''), (2, ''bc''), (3, ''cd'')] [0, 1] 2 = Inr (1, False)
   \<and> distinct_char_count [(0, ''aa''), (1, ''zb''), (2, ''bc''), (3, ''cd'')] 0 = 4
   \<and> distinct_char_count [(0, ''aa''), (1, ''zb''), (2, ''bc''), (3, ''cd'')] 1 = 4
   \<and> char_span [(0, ''aa''), (1, ''zb''), (2, ''bc''), (3, ''cd'')] 0 = 26
   \<and> char_span [(0, ''aa''), (1, ''zb''), (2, ''bc''), (3, ''cd'')] 1 = 4"
proof -
  let ?u = "[(0::nat, ''ax''), (1, ''bx''), (2, ''cy''), (3, ''dy'')]"
  let ?v = "[(0::nat, ''aa''), (1, ''zb''), (2, ''bc''), (3, ''cd'')]"
  let ?cols = "[0::nat, 1]"
  have thr: "use_if_threshold (main_opt []) = 3" by (simp add: main_opt_def)
  have n: "(1::nat) \<le> 2" "2 \<le> length ?cols" by simp_all
  have c0: "?cols ! 0 = 0" and c1: "?cols ! 1 = 1" by simp_all
  have two: "(j < 2) = (j = 0 \<or> j = 1)" for j :: nat by auto
  have one: "(j < 1) = (j = 0)" for j :: nat by auto
  have uc0: "distinct_char_count ?u 0 = 4" by code_simp
  have uc1: "distinct_char_count ?u 1 = 2" by code_simp
  have us0: "char_span ?u 0 = 4" by code_simp
  have us1: "char_span ?u 1 = 2" by code_simp
  have vc0: "distinct_char_count ?v 0 = 4" by code_simp
  have vc1: "distinct_char_count ?v 1 = 4" by code_simp
  have vs0: "char_span ?v 0 = 26" by code_simp
  have vs1: "char_span ?v 1 = 4" by code_simp
  have urng: "\<forall>j<2. \<forall>x\<in>set ?u. ?cols ! j < length (snd x)" by (simp add: two)
  have vrng: "\<forall>j<2. \<forall>x\<in>set ?v. ?cols ! j < length (snd x)" by (simp add: two)
  have unos: "\<forall>j<2. char_span ?u (?cols ! j) \<noteq> 1" using us0 us1 by (simp add: two)
  have vnos: "\<forall>j<2. char_span ?v (?cols ! j) \<noteq> 1" using vs0 vs1 by (simp add: two)
  from optimal_switch_column_least[OF thr _ n urng unos]
  obtain k b where u: "optimal_switch_column (main_opt []) ?u ?cols 2 = Inr (k, b)" "k < 2"
    "b = (\<exists>j<2. distinct_char_count ?u (?cols ! j) \<le> 3)"
    "b \<longrightarrow> (\<forall>j<2. distinct_char_count ?u (?cols ! k) \<le> distinct_char_count ?u (?cols ! j))"
    by auto
  from u(3) have ub: "b" using uc1 c1 by (auto simp: two)
  with u(4) have "distinct_char_count ?u (?cols ! k) \<le> distinct_char_count ?u (?cols ! 1)"
    by (simp add: two)
  with u(2) uc0 uc1 have uk: "k = 1" by (auto simp: two)
  from optimal_switch_column_least[OF thr _ n vrng vnos]
  obtain k' b' where v: "optimal_switch_column (main_opt []) ?v ?cols 2 = Inr (k', b')" "k' < 2"
    "b' = (\<exists>j<2. distinct_char_count ?v (?cols ! j) \<le> 3)"
    "\<not> b' \<longrightarrow> (\<forall>j<2. char_span ?v (?cols ! k') \<le> char_span ?v (?cols ! j))"
    by auto
  from v(3) have vb: "\<not> b'" using vc0 vc1 by (auto simp: two)
  with v(4) have "char_span ?v (?cols ! k') \<le> char_span ?v (?cols ! 1)"
    by (simp add: two)
  with v(2) vs0 vs1 have vk: "k' = 1" by (auto simp: two)
  from u(1) ub uk v(1) vb vk uc0 uc1 vc0 vc1 vs0 vs1 show ?thesis by simp
qed

subsection \<open>The returned index lies inside the window\<close>

text \<open>
  C10. For at least two pairwise distinct words of a common length \<open>L\<close> that agree at
  every position outside the window \<open>columns[0..unprocessed_columns-1]\<close>, with
  \<open>unprocessed_columns\<close> at least 1: every index that \<open>optimal_switch_column\<close> returns
  is below \<open>unprocessed_columns\<close> and below the length of \<open>columns\<close>, so the access
  \<open>columns[optimal_column_index]\<close> of the caller does not raise; and when the window
  lies inside \<open>columns\<close> and its columns are positions of the words, the function does
  return an index.
\<close>

theorem optimal_switch_column_index_in_window:
  assumes two: "2 \<le> length ws" and dist: "distinct (map snd ws)"
    and len: "\<forall>x\<in>set ws. length (snd x) = L"
    and n: "1 \<le> n"
    and agree: "\<forall>p<L. p \<notin> set (take n cols) \<longrightarrow> (\<forall>x\<in>set ws. \<forall>y\<in>set ws. snd x ! p = snd y ! p)"
  shows "(\<forall>k b. optimal_switch_column opt ws cols n = Inr (k, b) \<longrightarrow> k < n \<and> k < length cols)
       \<and> (n \<le> length cols \<and> (\<forall>c\<in>set (take n cols). c < L)
            \<longrightarrow> (\<exists>k b. optimal_switch_column opt ws cols n = Inr (k, b)))"
  using assms by (rule optimal_switch_column_in_window)

theorem optimal_switch_column_index_in_window_witness:
  "optimal_switch_column (main_opt []) [(0, ''ab''), (1, ''ac'')] [0, 1] 2 = Inr (1, True)
   \<and> (1::nat) < 2 \<and> 1 < length [0::nat, 1]"
proof -
  let ?ws = "[(0::nat, ''ab''), (1, ''ac'')]"
  have two: "2 \<le> length ?ws" by simp
  have dist: "distinct (map snd ?ws)" by simp
  have len: "\<forall>x\<in>set ?ws. length (snd x) = 2" by simp
  have n: "(1::nat) \<le> 2" by simp
  have agree: "\<forall>p<2. p \<notin> set (take 2 [0::nat, 1]) \<longrightarrow>
      (\<forall>x\<in>set ?ws. \<forall>y\<in>set ?ws. snd x ! p = snd y ! p)"
  proof (intro allI impI)
    fix p :: nat assume "p < 2" and "p \<notin> set (take 2 [0::nat, 1])"
    then have False by (cases p) auto
    then show "\<forall>x\<in>set ?ws. \<forall>y\<in>set ?ws. snd x ! p = snd y ! p" ..
  qed
  have val: "optimal_switch_column (main_opt []) ?ws [0, 1] 2 = Inr (1, True)"
    by code_simp
  from optimal_switch_column_index_in_window[OF two dist len n agree, of "main_opt []"] val
  show ?thesis by blast
qed

subsection \<open>Grouping by column and by length\<close>

lemma setdefault_append_keys:
  "map fst (setdefault_append k v d) = (if k \<in> fst ` set d then map fst d else map fst d @ [k])"
  by (induction d) (auto split: if_splits)

lemma map_of_setdefault_append:
  "map_of (setdefault_append k v d) =
     (map_of d)(k \<mapsto> (case map_of d k of None \<Rightarrow> [v] | Some items \<Rightarrow> items @ [v]))"
  by (induction d) (auto simp: fun_eq_iff)

lemma grouped_keys:
  "distinct (map fst (fold (\<lambda>item d. setdefault_append (f item) item d) xs []))
   \<and> set (map fst (fold (\<lambda>item d. setdefault_append (f item) item d) xs [])) = f ` set xs"
  by (induction xs rule: rev_induct) (auto simp: setdefault_append_keys)

lemma grouped_map_of:
  "map_of (fold (\<lambda>item d. setdefault_append (f item) item d) xs []) k =
     (if k \<in> f ` set xs then Some (filter (\<lambda>x. f x = k) xs) else None)"
proof (induction xs arbitrary: k rule: rev_induct)
  case Nil
  show ?case by simp
next
  case (snoc x xs)
  show ?case
    by (cases "k = f x") (auto simp: map_of_setdefault_append snoc.IH filter_empty_conv image_iff split: option.splits)
qed

lemma sorted_groups:
  fixes g :: "'k \<Rightarrow> 'o::linorder" and f :: "'a \<Rightarrow> 'k" and xs :: "'a list"
  assumes "inj g"
  defines "r \<equiv> sort_key (\<lambda>p. g (fst p)) (fold (\<lambda>item d. setdefault_append (f item) item d) xs [])"
  shows "map (\<lambda>k. (k, filter (\<lambda>x. f x = k) xs)) (map fst r) = r"
    and "distinct (map fst r)" and "set (map fst r) = f ` set xs"
    and "sorted (map g (map fst r))"
proof -
  let ?d = "fold (\<lambda>item d. setdefault_append (f item) item d) xs []"
  have dk: "distinct (map fst ?d)" and sk: "set (map fst ?d) = f ` set xs"
    using grouped_keys[of f xs] by simp_all
  have setr: "set r = set ?d" by (simp add: r_def)
  from dk have "distinct ?d" and inj: "inj_on fst (set ?d)" by (simp_all add: distinct_map)
  then have "distinct r" by (simp add: r_def)
  with inj setr show "distinct (map fst r)" by (simp add: distinct_map)
  from setr sk show "set (map fst r) = f ` set xs" by simp
  have "sorted (map (\<lambda>p. g (fst p)) r)" by (simp add: r_def)
  then show "sorted (map g (map fst r))" by (simp add: comp_def)
  have "\<forall>p\<in>set r. p = (fst p, filter (\<lambda>x. f x = fst p) xs)"
  proof
    fix p assume "p \<in> set r"
    with setr have "p \<in> set ?d" by simp
    with dk have "map_of ?d (fst p) = Some (snd p)" by simp
    then have "snd p = filter (\<lambda>x. f x = fst p) xs"
      by (simp add: grouped_map_of split: if_splits)
    then show "p = (fst p, filter (\<lambda>x. f x = fst p) xs)" by (cases p) simp
  qed
  then have "map (\<lambda>p. (fst p, filter (\<lambda>x. f x = fst p) xs)) r = r"
    by (intro map_idI) simp
  then show "map (\<lambda>k. (k, filter (\<lambda>x. f x = k) xs)) (map fst r) = r"
    by (simp add: comp_def)
qed

lemma sorted_keys_unique:
  fixes g :: "'k \<Rightarrow> 'o::linorder"
  assumes "inj g" "distinct ks" "distinct ks'" "set ks = set ks'"
    "sorted (map g ks)" "sorted (map g ks')"
  shows "ks = ks'"
proof -
  have "map g ks = map g ks'"
    using assms by (intro sorted_distinct_set_unique) (auto simp: distinct_map intro: inj_on_subset)
  with \<open>inj g\<close> show ?thesis by (simp add: inj_map_eq_map)
qed

lemma inj_of_char_nat: "inj (of_char :: char \<Rightarrow> nat)"
  by (rule injI) (simp add: of_char_eq_iff)

lemma split_list_per_column_Inr:
  assumes "ws \<noteq> []" and "\<forall>x\<in>set ws. c < length (snd x)"
  obtains keys where
    "split_list_per_column ws c = Inr (map (\<lambda>k. (k, filter (\<lambda>x. snd x ! c = k) ws)) keys)"
    "distinct keys" "set keys = (\<lambda>x. snd x ! c) ` set ws"
    "sorted (map (of_char :: char \<Rightarrow> nat) keys)"
proof -
  define r where "r = sort_key (\<lambda>p. (of_char (fst p) :: nat))
              (fold (\<lambda>item d. setdefault_append (snd item ! c) item d) ws [])"
  have fn: "(\<lambda>(char, items). (of_char char :: nat)) = (\<lambda>p. of_char (fst p))"
    by (simp add: fun_eq_iff)
  have "\<not> (\<exists>(index, word) \<in> set ws. length word \<le> c)"
    using assms(2) by fastforce
  then have eq: "split_list_per_column ws c = Inr r"
    using assms(1) by (simp add: split_list_per_column_def fn r_def)
  note g = sorted_groups[OF inj_of_char_nat, of "\<lambda>x. snd x ! c" ws, folded r_def]
  have "split_list_per_column ws c
          = Inr (map (\<lambda>k. (k, filter (\<lambda>x. snd x ! c = k) ws)) (map fst r))"
    unfolding g(1) by (rule eq)
  then show thesis using g(2,3,4) by (rule that)
qed

lemma split_list_per_length_Inr:
  assumes "ws \<noteq> []"
  shows "split_list_per_length ws =
           Inr (map (\<lambda>k. (k, filter (\<lambda>x. length (snd x) = k) ws))
                    (sorted_list_of_set (set (map (\<lambda>x. length (snd x)) ws))))"
proof -
  define r where "r = sort_key (\<lambda>p. (\<lambda>k::nat. k) (fst p))
        (fold (\<lambda>item d. setdefault_append (length (snd item)) item d) ws [])"
  have inj: "inj (\<lambda>k::nat. k)" by simp
  have fn: "(fst :: nat \<times> reserved_word list \<Rightarrow> nat) = (\<lambda>p. fst p)" by simp
  have eq: "split_list_per_length ws = Inr r"
    using assms by (simp add: split_list_per_length_def r_def)
  note g = sorted_groups[OF inj, of "\<lambda>x. length (snd x)" ws, folded r_def]
  from g(4) have o: "sorted (map fst r)" by simp
  from o g(2) have "sorted_list_of_set (set (map fst r)) = map fst r"
    by (rule sorted_list_of_set.idem_if_sorted_distinct)
  with g(3) have k: "map fst r = sorted_list_of_set (set (map (\<lambda>x. length (snd x)) ws))"
    by simp
  have "split_list_per_length ws
          = Inr (map (\<lambda>k. (k, filter (\<lambda>x. length (snd x) = k) ws)) (map fst r))"
    unfolding g(1) by (rule eq)
  then show ?thesis unfolding k .
qed

lemma map_of_keyed:
  "k \<in> set keys \<Longrightarrow> map_of (map (\<lambda>k. (k, F k)) keys) k = Some (F k)"
  by (induction keys) auto

subsection \<open>The text written is the rendering of the syntax tree\<close>

lemma osc_scan_threshold:
  assumes thr: "use_if_threshold opt = use_if_threshold opt'"
  shows "osc_scan opt ws cols n i mc ms mci msi = osc_scan opt' ws cols n i mc ms mci msi"
proof (induction "n - i" arbitrary: i mc ms mci msi)
  case 0
  then have "\<not> i < n" by simp
  then show ?case by (simp add: osc_scan_end thr)
next
  case (Suc d)
  then have d: "d = n - Suc i" and lt: "i < n" by simp_all
  show ?case
  proof (cases "i < length cols")
    case False
    with lt show ?thesis by (simp add: osc_scan_short)
  next
    case True
    show ?thesis
    proof (cases "span_and_count_at ws (cols ! i)")
      case (Inl e)
      with lt True show ?thesis by (simp add: osc_scan_raise)
    next
      case (Inr r)
      obtain sp ct where r: "r = (sp, ct)" by (cases r)
      with Inr have sc: "span_and_count_at ws (cols ! i) = Inr (sp, ct)" by simp
      show ?thesis
      proof (cases "sp = 1")
        case True
        with sc have sc1: "span_and_count_at ws (cols ! i) = Inr (1, ct)" by simp
        show ?thesis
          unfolding osc_scan_early[OF lt \<open>i < length cols\<close> sc1] ..
      next
        case False
        show ?thesis
          unfolding osc_scan_step[OF lt True sc False]
          by (rule Suc.hyps(1)[OF d])
      qed
    qed
  qed
qed

lemma optimal_switch_column_threshold:
  "use_if_threshold opt = use_if_threshold opt' \<Longrightarrow>
   optimal_switch_column opt ws cols n = optimal_switch_column opt' ws cols n"
  unfolding optimal_switch_column_def by (simp only: osc_scan_threshold[of opt opt'])

lemma line_emit: "line opt s = emit opt (text_line (indent_level opt) s)"
  by (simp add: line_def emit_def text_line_def)

lemma emit_emit [simp]: "emit (emit opt a) b = emit opt (a @ b)"
  by (simp add: emit_def)

lemma emit_fields [simp]:
  "indent_level (emit opt a) = indent_level opt"
  "use_if_threshold (emit opt a) = use_if_threshold opt"
  "char_tail_test_threshold (emit opt a) = char_tail_test_threshold opt"
  "output_sink (emit opt a) = output_sink opt @ a"
  by (simp_all add: emit_def)

lemma indent_fields [simp]:
  "indent_level (indent opt) = indent_level opt + 1"
  "use_if_threshold (indent opt) = use_if_threshold opt"
  "char_tail_test_threshold (indent opt) = char_tail_test_threshold opt"
  "output_sink (indent opt) = output_sink opt"
  by (simp_all add: indent_def)

lemma indent_emit [simp]: "indent (emit opt a) = emit (indent opt) a"
  by (simp add: indent_def emit_def)

lemma dedent_emit [simp]: "dedent (emit opt a) = emit (dedent opt) a"
  by (simp add: dedent_def emit_def)

lemma dedent_indent [simp]: "dedent (indent opt) = opt"
  by (simp add: dedent_def indent_def)

lemma emit_Nil [simp]: "emit opt [] = opt"
  by (simp add: emit_def)

lemma if_line_at [simp]: "if_line (JSRW_AT col) (OfChar c) = if_at_line col c"
  by (simp add: if_line_def if_at_line_def scrutinee_text_def label_text_def)

lemma case_line_char [simp]: "case_line (OfChar c) = case_char_line c"
  by (simp add: case_line_def case_char_line_def label_text_def)

lemma switch_line_at [simp]: "switch_line (JSRW_AT col) = switch_at_line col"
  by (simp add: switch_line_def switch_at_line_def scrutinee_text_def)

lemma if_line_length [simp]: "if_line JSRW_LENGTH (OfLength n) = if_length_line n"
  by (simp add: if_line_def if_length_line_def scrutinee_text_def label_text_def)

lemma case_line_length [simp]: "case_line (OfLength n) = case_length_line n"
  by (simp add: case_line_def case_length_line_def label_text_def)

lemma switch_line_length [simp]: "switch_line JSRW_LENGTH = ''switch (JSRW_LENGTH()) {''"
  by (simp add: switch_line_def scrutinee_text_def)

lemma render_block_append [simp]:
  "render_block lvl (xs @ ys) = render_block lvl xs @ render_block lvl ys"
  by (induction xs) simp_all

lemma branches_text_Nil [simp]: "branches_text lvl use_if e [] = []"
  by (simp add: branches_text_def)

lemma branches_text_Cons:
  "branches_text lvl use_if e ((l, body) # branches) =
     (if use_if then text_line lvl (if_line e l) @ render_block (lvl + 1) body @ text_line lvl ''}''
      else text_line lvl (case_line l) @ render_block (lvl + 1) body)
     @ branches_text lvl use_if e branches"
  by (simp add: branches_text_def)

lemma gls_branches_linked:
  assumes node: "\<And>opt ws. use_if_threshold opt = use_if_threshold opt0 \<Longrightarrow>
                   char_tail_test_threshold opt = char_tail_test_threshold opt0 \<Longrightarrow>
                   linked opt0 opt n ws (Some cols)"
    and "use_if_threshold opt = use_if_threshold opt0"
    and "char_tail_test_threshold opt = char_tail_test_threshold opt0"
  shows "case letter_branches opt0 n cols groups of
           Inr branches \<Rightarrow> gls_branches opt n use_if col cols groups
              = (None, emit opt (branches_text (indent_level opt) use_if (JSRW_AT col) branches))
         | Inl e \<Rightarrow> fst (gls_branches opt n use_if col cols groups) = Some e"
  using assms(2,3)
proof (induction groups arbitrary: opt)
  case Nil
  show ?case by simp
next
  case (Cons g groups)
  obtain ch ws where g: "g = (ch, ws)" by (cases g)
  define opt1 where "opt1 = indent (if use_if then line opt (if_at_line col ch)
                                    else line opt (case_char_line ch))"
  have thr1: "use_if_threshold opt1 = use_if_threshold opt0"
    "char_tail_test_threshold opt1 = char_tail_test_threshold opt0"
    using Cons.prems by (simp_all add: opt1_def line_emit)
  have lvl1: "indent_level opt1 = indent_level opt + 1" by (simp add: opt1_def line_emit)
  note lk = node[OF thr1, of ws, unfolded linked_def]
  show ?case
  proof (cases "letter_stmts opt0 n ws (Some cols)")
    case (Inl e)
    with lk have "fst (generate_letter_switch opt1 n ws (Some cols)) = Some e" by simp
    then obtain o' where "generate_letter_switch opt1 n ws (Some cols) = (Some e, o')"
      by (cases "generate_letter_switch opt1 n ws (Some cols)") auto
    then show ?thesis using Inl by (simp add: g opt1_def Let_def)
  next
    case (Inr body)
    with lk have run: "generate_letter_switch opt1 n ws (Some cols)
        = (None, emit opt1 (render_block (indent_level opt + 1) body))"
      by (simp add: lvl1)
    define opt3 where "opt3 = (let o2 = dedent (emit opt1 (render_block (indent_level opt + 1) body))
                               in if use_if then line o2 ''}'' else o2)"
    have o3: "opt3 = emit opt ((if use_if then text_line (indent_level opt) (if_at_line col ch)
                                else text_line (indent_level opt) (case_char_line ch))
                               @ render_block (indent_level opt + 1) body
                               @ (if use_if then text_line (indent_level opt) ''}'' else []))"
      by (simp add: opt3_def opt1_def line_emit Let_def)
    have thr3: "use_if_threshold opt3 = use_if_threshold opt0"
      "char_tail_test_threshold opt3 = char_tail_test_threshold opt0"
      using Cons.prems by (simp_all add: o3)
    have step: "gls_branches opt n use_if col cols (g # groups)
                 = gls_branches opt3 n use_if col cols groups"
      using run by (simp add: g opt1_def[symmetric] opt3_def Let_def)
    note ih = Cons.IH[OF thr3]
    show ?thesis
    proof (cases "letter_branches opt0 n cols groups")
      case (Inl e)
      with ih Inr step show ?thesis by (simp add: g)
    next
      case bs: (Inr branches)
      with ih have "gls_branches opt3 n use_if col cols groups
          = (None, emit opt3 (branches_text (indent_level opt3) use_if (JSRW_AT col) branches))"
        by simp
      with step bs Inr show ?thesis
        by (simp add: g o3 branches_text_Cons)
    qed
  qed
qed

lemma letter_stmts_plan:
  "letter_stmts opt n ws ca =
     (case node_plan opt n ws ca of
        Fail e \<Rightarrow> Inl e
      | Single index word columns \<Rightarrow> single_stmts opt n index word columns
      | Dispatch col use_if columns groups \<Rightarrow>
          (case letter_branches opt (n - 1) columns groups of
             Inl e \<Rightarrow> Inl e
           | Inr branches \<Rightarrow> Inr (dispatch_stmts col use_if branches)))"
  unfolding node_plan_def single_stmts_def dispatch_stmts_def
  by (subst letter_stmts.simps) (simp add: Let_def split: sum.splits prod.splits)

lemma letter_leaf_plan:
  "letter_leaf opt n ws ca s =
     (case node_plan opt n ws ca of
        Fail e \<Rightarrow> None
      | Single index word columns \<Rightarrow> Some (n, ws)
      | Dispatch col use_if columns groups \<Rightarrow>
          (if length s \<le> col then None
           else (case map_of groups (s ! col) of
                   None \<Rightarrow> None
                 | Some g \<Rightarrow> letter_leaf opt (n - 1) g (Some columns) s)))"
  unfolding node_plan_def
  by (subst letter_leaf.simps) (simp add: Let_def split: sum.splits prod.splits)

lemma join_with_conds:
  "join_with '' && '' (map (\<lambda>column. cond_text column (word ! column)) cols)
     = conds_text (map (\<lambda>column. (column, word ! column)) cols)"
  by (induction cols rule: induct_list012)
     (simp_all add: cond_text_def scrutinee_text_def label_text_def)

lemma generate_letter_switch_single:
  "generate_letter_switch opt n [(index, word)] ca =
     (case single_stmts opt n index word (columns_or_range ca n) of
        Inl e \<Rightarrow> (Some e, opt)
      | Inr stmts \<Rightarrow> (None, emit opt (render_block (indent_level opt) stmts)))"
  unfolding single_stmts_def
  by (subst generate_letter_switch.simps)
     (simp add: Let_def line_emit got_match_line_def test_guess_line_def if_conds_line_def
        join_with_conds)

lemma node_plan_single: "node_plan opt n [(index, word)] ca = Single index word (columns_or_range ca n)"
  by (simp add: node_plan_def)

lemma generate_letter_switch_plan:
  "generate_letter_switch opt n ws ca =
     (case node_plan opt n ws ca of
        Fail e \<Rightarrow> (Some e, opt)
      | Single index word columns \<Rightarrow>
          (case single_stmts opt n index word columns of
             Inl e \<Rightarrow> (Some e, opt)
           | Inr stmts \<Rightarrow> (None, emit opt (render_block (indent_level opt) stmts)))
      | Dispatch col use_if columns groups \<Rightarrow>
          (case gls_branches (if \<not> use_if then line opt (switch_at_line col) else opt)
                  (n - 1) use_if col columns groups of
             (Some e, opt') \<Rightarrow> (Some e, opt')
           | (None, opt') \<Rightarrow>
               (None, line (if \<not> use_if then line opt' ''}'' else opt') ''JSRW_NO_MATCH()'')))"
proof (cases "length ws = 1")
  case True
  then obtain index word where ws: "ws = [(index, word)]"
    by (cases ws) auto
  show ?thesis
    unfolding ws node_plan_single by (simp add: generate_letter_switch_single)
next
  case False
  then show ?thesis
    unfolding node_plan_def
    by (subst generate_letter_switch.simps)
       (simp add: Let_def split: sum.splits prod.splits option.splits)
qed

lemma node_plan_threshold:
  "use_if_threshold opt = use_if_threshold opt' \<Longrightarrow> node_plan opt n ws ca = node_plan opt' n ws ca"
  unfolding node_plan_def by (simp only: optimal_switch_column_threshold[of opt opt'])

lemma single_stmts_threshold:
  "char_tail_test_threshold opt = char_tail_test_threshold opt' \<Longrightarrow>
   single_stmts opt n index word columns = single_stmts opt' n index word columns"
  by (simp add: single_stmts_def)

lemma node_plan_Dispatch_pos:
  "node_plan opt n ws ca = Dispatch col use_if columns groups \<Longrightarrow> 0 < n"
  by (auto simp: node_plan_def Let_def split: if_splits sum.splits prod.splits)

lemma render_dispatch_stmts:
  "render_block lvl (dispatch_stmts col use_if branches) =
     (if use_if then [] else text_line lvl (switch_at_line col))
     @ branches_text lvl use_if (JSRW_AT col) branches
     @ (if use_if then [] else text_line lvl ''}'')
     @ text_line lvl ''JSRW_NO_MATCH()''"
  by (simp add: dispatch_stmts_def branches_text_def)

lemma generate_letter_switch_linked:
  assumes "use_if_threshold opt = use_if_threshold opt0"
    and "char_tail_test_threshold opt = char_tail_test_threshold opt0"
  shows "linked opt0 opt n ws carg"
  using assms
proof (induction n arbitrary: opt ws carg)
  case (0 opt ws carg)
  note plan = node_plan_threshold[OF "0.prems"(1), of 0 ws carg]
  show ?case
  proof (cases "node_plan opt0 0 ws carg")
    case (Fail e)
    then show ?thesis
      by (simp add: linked_def letter_stmts_plan generate_letter_switch_plan plan)
  next
    case (Single index word columns)
    then show ?thesis
      by (simp add: linked_def letter_stmts_plan generate_letter_switch_plan plan
            single_stmts_threshold[OF "0.prems"(2)] split: sum.splits)
  next
    case (Dispatch col use_if columns groups)
    from node_plan_Dispatch_pos[OF this] show ?thesis by simp
  qed
next
  case (Suc n opt ws carg)
  note plan = node_plan_threshold[OF Suc.prems(1), of "Suc n" ws carg]
  show ?case
  proof (cases "node_plan opt0 (Suc n) ws carg")
    case (Fail e)
    then show ?thesis
      by (simp add: linked_def letter_stmts_plan generate_letter_switch_plan plan)
  next
    case (Single index word columns)
    then show ?thesis
      by (simp add: linked_def letter_stmts_plan generate_letter_switch_plan plan
            single_stmts_threshold[OF Suc.prems(2)] split: sum.splits)
  next
    case (Dispatch col use_if columns groups)
    define opt1 where "opt1 = (if \<not> use_if then line opt (switch_at_line col) else opt)"
    have o1: "opt1 = emit opt (if use_if then [] else text_line (indent_level opt) (switch_at_line col))"
      by (simp add: opt1_def line_emit)
    have thr1: "use_if_threshold opt1 = use_if_threshold opt0"
      "char_tail_test_threshold opt1 = char_tail_test_threshold opt0"
      using Suc.prems by (simp_all add: o1)
    have node: "\<And>opt ws. use_if_threshold opt = use_if_threshold opt0 \<Longrightarrow>
                   char_tail_test_threshold opt = char_tail_test_threshold opt0 \<Longrightarrow>
                   linked opt0 opt n ws (Some columns)"
      by (rule Suc.IH)
    note br = gls_branches_linked[where ?opt0.0=opt0 and n=n and cols=columns and opt=opt1
        and groups=groups and use_if=use_if and col=col, OF node thr1]
    have gls: "generate_letter_switch opt (Suc n) ws carg =
        (case gls_branches opt1 n use_if col columns groups of
           (Some e, opt') \<Rightarrow> (Some e, opt')
         | (None, opt') \<Rightarrow>
             (None, line (if \<not> use_if then line opt' ''}'' else opt') ''JSRW_NO_MATCH()''))"
      using Dispatch by (simp add: generate_letter_switch_plan plan opt1_def)
    have ls: "letter_stmts opt0 (Suc n) ws carg =
        (case letter_branches opt0 n columns groups of
           Inl e \<Rightarrow> Inl e
         | Inr branches \<Rightarrow> Inr (dispatch_stmts col use_if branches))"
      using Dispatch by (simp add: letter_stmts_plan)
    show ?thesis
    proof (cases "letter_branches opt0 n columns groups")
      case (Inl e)
      with br have "fst (gls_branches opt1 n use_if col columns groups) = Some e" by simp
      then obtain o' where "gls_branches opt1 n use_if col columns groups = (Some e, o')"
        by (cases "gls_branches opt1 n use_if col columns groups") auto
      with Inl show ?thesis by (simp add: linked_def gls ls)
    next
      case (Inr branches)
      with br have "gls_branches opt1 n use_if col columns groups
         = (None, emit opt1 (branches_text (indent_level opt1) use_if (JSRW_AT col) branches))"
        by simp
      with Inr show ?thesis
        by (simp add: linked_def gls ls o1 line_emit render_dispatch_stmts)
    qed
  qed
qed



lemma gs_branches_linked:
  assumes "use_if_threshold opt = use_if_threshold opt0"
    and "char_tail_test_threshold opt = char_tail_test_threshold opt0"
  shows "case length_branches opt0 groups of
           Inr branches \<Rightarrow> gs_branches opt use_if groups
              = (None, emit opt (branches_text (indent_level opt) use_if JSRW_LENGTH branches))
         | Inl e \<Rightarrow> fst (gs_branches opt use_if groups) = Some e"
  using assms
proof (induction groups arbitrary: opt)
  case Nil
  show ?case by simp
next
  case (Cons g groups opt)
  obtain len ws where g: "g = (len, ws)" by (cases g)
  define opt1 where "opt1 = indent (if use_if then line opt (if_length_line len)
                                    else line opt (case_length_line len))"
  have thr1: "use_if_threshold opt1 = use_if_threshold opt0"
    "char_tail_test_threshold opt1 = char_tail_test_threshold opt0"
    using Cons.prems by (simp_all add: opt1_def line_emit)
  have lvl1: "indent_level opt1 = indent_level opt + 1" by (simp add: opt1_def line_emit)
  note lk = generate_letter_switch_linked[OF thr1, of len ws None, unfolded linked_def]
  show ?case
  proof (cases "letter_stmts opt0 len ws None")
    case (Inl e)
    with lk have "fst (generate_letter_switch opt1 len ws None) = Some e" by simp
    then obtain o' where "generate_letter_switch opt1 len ws None = (Some e, o')"
      by (cases "generate_letter_switch opt1 len ws None") auto
    then show ?thesis using Inl by (simp add: g opt1_def Let_def)
  next
    case (Inr body)
    with lk have run: "generate_letter_switch opt1 len ws None
        = (None, emit opt1 (render_block (indent_level opt + 1) body))"
      by (simp add: lvl1)
    define opt3 where "opt3 = (let o2 = dedent (emit opt1 (render_block (indent_level opt + 1) body))
                               in if use_if then line o2 ''}'' else o2)"
    have o3: "opt3 = emit opt ((if use_if then text_line (indent_level opt) (if_length_line len)
                                else text_line (indent_level opt) (case_length_line len))
                               @ render_block (indent_level opt + 1) body
                               @ (if use_if then text_line (indent_level opt) ''}'' else []))"
      by (simp add: opt3_def opt1_def line_emit Let_def)
    have thr3: "use_if_threshold opt3 = use_if_threshold opt0"
      "char_tail_test_threshold opt3 = char_tail_test_threshold opt0"
      using Cons.prems by (simp_all add: o3)
    have step: "gs_branches opt use_if (g # groups) = gs_branches opt3 use_if groups"
      using run by (simp add: g opt1_def[symmetric] opt3_def Let_def)
    note ih = Cons.IH[OF thr3]
    show ?thesis
    proof (cases "length_branches opt0 groups")
      case (Inl e)
      with ih Inr step show ?thesis by (simp add: g)
    next
      case bs: (Inr branches)
      with ih have "gs_branches opt3 use_if groups
          = (None, emit opt3 (branches_text (indent_level opt3) use_if JSRW_LENGTH branches))"
        by simp
      with step bs Inr show ?thesis
        by (simp add: g o3 branches_text_Cons)
    qed
  qed
qed

lemma fold_line_emit:
  "fold (\<lambda>(index, word) opt. line opt (f word)) ws opt
     = emit opt (concat (map (\<lambda>(index, word). text_line (indent_level opt) (f word)) ws))"
  by (induction ws arbitrary: opt) (auto simp: line_emit)

lemma write_header_emit: "write_header opt ws = emit opt (header_text (indent_level opt) ws)"
proof -
  have body: "concat (map (\<lambda>(index, word). text_line lvl ('' * '' @ word)) ws)
      = concat (map (text_line lvl) (map (\<lambda>(index, word). '' * '' @ word) ws))" for lvl
    by (induction ws) auto
  show ?thesis
    unfolding write_header_def Let_def fold_line_emit[where f = "\<lambda>word. '' * '' @ word"] body
      header_text_def header_lines_def
    by (simp only: line_emit emit_emit emit_fields map_append concat_append list.map concat.simps
          append_Nil2 append_assoc)
qed

lemma render_switch_dispatch:
  "render_block lvl (switch_dispatch use_if branches) =
     (if use_if then [] else text_line lvl ''switch (JSRW_LENGTH()) {'')
     @ branches_text lvl use_if JSRW_LENGTH branches
     @ (if use_if then [] else text_line lvl ''}'')
     @ text_line lvl ''JSRW_NO_MATCH()''"
  by (simp add: switch_dispatch_def branches_text_def)

lemma switch_stmts_unfold:
  "ws \<noteq> [] \<Longrightarrow> split_list_per_length ws = Inr groups \<Longrightarrow>
   switch_stmts opt ws =
     (case length_branches opt groups of
        Inl e \<Rightarrow> Inl e
      | Inr branches \<Rightarrow>
          Inr (switch_dispatch (int (length groups) < use_if_threshold opt) branches))"
  by (simp add: switch_stmts_def switch_dispatch_def split: sum.splits)

lemma generate_switch_linked:
  "case switch_stmts opt ws of
     Inr stmts \<Rightarrow> generate_switch opt ws
        = (None, emit opt (header_text (indent_level opt) ws @ render_block (indent_level opt) stmts))
   | Inl e \<Rightarrow> fst (generate_switch opt ws) = Some e"
proof (cases "ws = []")
  case True
  then show ?thesis by (simp add: switch_stmts_def generate_switch_def)
next
  case False
  from split_list_per_length_Inr[OF False]
  obtain groups where sp: "split_list_per_length ws = Inr groups" by blast
  define use_if where "use_if = (int (length groups) < use_if_threshold opt)"
  define opt1 where "opt1 = (let hdr = write_header opt ws in
            if \<not> use_if then line hdr ''switch (JSRW_LENGTH()) {'' else hdr)"
  have o1: "opt1 = emit opt (header_text (indent_level opt) ws
              @ (if use_if then [] else text_line (indent_level opt) ''switch (JSRW_LENGTH()) {''))"
    by (simp add: opt1_def write_header_emit line_emit Let_def)
  have thr1: "use_if_threshold opt1 = use_if_threshold opt"
    "char_tail_test_threshold opt1 = char_tail_test_threshold opt"
    by (simp_all add: o1)
  note br = gs_branches_linked[OF thr1, where groups=groups and use_if=use_if]
  have gs: "generate_switch opt ws =
      (case gs_branches opt1 use_if groups of
         (Some e, opt') \<Rightarrow> (Some e, opt')
       | (None, opt') \<Rightarrow>
           (None, line (if \<not> use_if then line opt' ''}'' else opt') ''JSRW_NO_MATCH()''))"
    using False sp
    by (simp add: generate_switch_def Let_def opt1_def use_if_def write_header_emit
          split: prod.splits option.splits)
  note ss = switch_stmts_unfold[OF False sp, of opt, folded use_if_def]
  show ?thesis
  proof (cases "length_branches opt groups")
    case (Inl e)
    with br have "fst (gs_branches opt1 use_if groups) = Some e" by simp
    then obtain o' where "gs_branches opt1 use_if groups = (Some e, o')"
      by (cases "gs_branches opt1 use_if groups") auto
    with Inl show ?thesis by (simp add: gs ss)
  next
    case (Inr branches)
    with br have "gs_branches opt1 use_if groups
       = (None, emit opt1 (branches_text (indent_level opt1) use_if JSRW_LENGTH branches))"
      by simp
    with Inr show ?thesis
      by (simp add: gs ss o1 line_emit render_switch_dispatch)
  qed
qed

lemma generate_switch_renders:
  "switch_stmts opt ws = Inr stmts \<Longrightarrow>
   generate_switch opt ws
     = (None, emit opt (header_text (indent_level opt) ws @ render_block (indent_level opt) stmts))"
  using generate_switch_linked[of opt ws] by simp

lemma generate_switch_raises:
  "switch_stmts opt ws = Inl e \<Longrightarrow> fst (generate_switch opt ws) = Some e"
  using generate_switch_linked[of opt ws] by simp

subsection \<open>Nodes of a valid corpus\<close>

lemma node_okD:
  assumes "node_ok L n ws cols"
  shows "ws \<noteq> []" and "distinct (map snd ws)" and "\<forall>x\<in>set ws. length (snd x) = L"
    and "n \<le> length cols" and "distinct (take n cols)" and "\<forall>c\<in>set (take n cols). c < L"
    and "\<forall>p<L. p \<notin> set (take n cols) \<longrightarrow> (\<forall>x\<in>set ws. \<forall>y\<in>set ws. snd x ! p = snd y ! p)"
  using assms unfolding node_ok_def by blast+

lemma window_swap_remove:
  assumes k: "k < n" and n: "n \<le> length cols" and d: "distinct (take n cols)"
  shows "set (take (n - 1) (cols[k := cols ! (n - 1)])) = set (take n cols) - {cols ! k}"
    and "distinct (take (n - 1) (cols[k := cols ! (n - 1)]))"
proof -
  define m where "m = n - 1"
  with k have nm: "n = Suc m" by simp
  with n have m: "m < length cols" by simp
  have tk: "take n cols = take m cols @ [cols ! m]"
    unfolding nm by (rule take_Suc_conv_app_nth[OF m])
  with d have dm: "distinct (take m cols)" and notin: "cols ! m \<notin> set (take m cols)" by simp_all
  have goal: "set (take m (cols[k := cols ! m])) = set (take n cols) - {cols ! k}
              \<and> distinct (take m (cols[k := cols ! m]))"
  proof (cases "k = m")
    case True
    then have "cols[k := cols ! m] = cols" by simp
    with True tk dm notin show ?thesis by auto
  next
    case False
    with k nm have km: "k < m" by simp
    then have kl: "k < length (take m cols)" using m by simp
    have nthk: "take m cols ! k = cols ! k" using km by simp
    have sw: "take m (cols[k := cols ! m]) = (take m cols)[k := cols ! m]"
      by (rule take_update_swap)
    have kin: "cols ! k \<in> set (take m cols)" using kl nthk by (metis nth_mem)
    have "set ((take m cols)[k := cols ! m]) = insert (cols ! m) (set (take m cols) - {cols ! k})"
      using set_update_distinct[OF dm kl, of "cols ! m"] nthk by simp
    moreover have "distinct ((take m cols)[k := cols ! m])"
      using dm notin by (intro distinct_list_update) auto
    ultimately show ?thesis using tk sw kin notin by auto
  qed
  from goal show "set (take (n - 1) (cols[k := cols ! (n - 1)])) = set (take n cols) - {cols ! k}"
    by (simp add: m_def)
  from goal show "distinct (take (n - 1) (cols[k := cols ! (n - 1)]))"
    by (simp add: m_def)
qed

lemma node_ok_window_nonempty:
  assumes ok: "node_ok L n ws cols" and two: "length ws \<noteq> 1"
  shows "1 \<le> n" and "2 \<le> length ws"
proof -
  note ne = node_okD(1)[OF ok]
  with two show two': "2 \<le> length ws" by (cases ws; cases "tl ws") auto
  note dist = node_okD(2)[OF ok] and len = node_okD(3)[OF ok] and agree = node_okD(7)[OF ok]
  from two' dist obtain x y where xy: "x \<in> set ws" "y \<in> set ws" "snd x \<noteq> snd y"
    by (rule two_distinct_words)
  from len xy have l: "length (snd x) = length (snd y)" "length (snd x) = L" by auto
  from differ_somewhere[OF l(1) xy(3)] obtain p where p: "p < L" "snd x ! p \<noteq> snd y ! p"
    using l(2) by auto
  from agree p xy have "p \<in> set (take n cols)" by blast
  then have "n \<noteq> 0" by (cases n) auto
  then show "1 \<le> n" by simp
qed

lemma node_ok_group:
  assumes ok: "node_ok L n ws cols" and k: "k < n" and ch: "ch \<in> (\<lambda>x. snd x ! (cols ! k)) ` set ws"
  shows "node_ok L (n - 1) (filter (\<lambda>x. snd x ! (cols ! k) = ch) ws) (cols[k := cols ! (n - 1)])"
proof -
  let ?g = "filter (\<lambda>x. snd x ! (cols ! k) = ch) ws"
  let ?cols = "cols[k := cols ! (n - 1)]"
  note n = node_okD(4)[OF ok] and d = node_okD(5)[OF ok] and rng = node_okD(6)[OF ok]
    and dist = node_okD(2)[OF ok] and len = node_okD(3)[OF ok] and agree = node_okD(7)[OF ok]
  note w = window_swap_remove[OF k n d]
  have "?g \<noteq> []" using ch by (auto simp: filter_empty_conv)
  moreover have "distinct (map snd ?g)" using dist by (rule distinct_map_filter)
  moreover have "\<forall>x\<in>set ?g. length (snd x) = L" using len by simp
  moreover have "n - 1 \<le> length ?cols" using n by simp
  moreover note w(2)
  moreover have "\<forall>c\<in>set (take (n - 1) ?cols). c < L" using rng w(1) by simp
  moreover have "\<forall>p<L. p \<notin> set (take (n - 1) ?cols) \<longrightarrow> (\<forall>x\<in>set ?g. \<forall>y\<in>set ?g. snd x ! p = snd y ! p)"
  proof (intro allI impI ballI)
    fix p x y assume p: "p < L" "p \<notin> set (take (n - 1) ?cols)" and x: "x \<in> set ?g" and y: "y \<in> set ?g"
    show "snd x ! p = snd y ! p"
    proof (cases "p = cols ! k")
      case True
      with x y show ?thesis by simp
    next
      case False
      with p(2) w(1) have "p \<notin> set (take n cols)" by simp
      moreover from x y have "x \<in> set ws" "y \<in> set ws" by simp_all
      ultimately show ?thesis using agree p(1) by blast
    qed
  qed
  ultimately show ?thesis unfolding node_ok_def by blast
qed

lemma node_ok_dispatch:
  assumes ok: "node_ok L n ws cols" and two: "length ws \<noteq> 1"
    and cols: "columns_or_range ca n = cols"
  obtains k b keys where
    "node_plan opt n ws ca = Dispatch (cols ! k) b (cols[k := cols ! (n - 1)])
        (map (\<lambda>ch. (ch, filter (\<lambda>x. snd x ! (cols ! k) = ch) ws)) keys)"
    "k < n" "cols ! k < L" "distinct keys" "set keys = (\<lambda>x. snd x ! (cols ! k)) ` set ws"
    "sorted (map (of_char :: char \<Rightarrow> nat) keys)"
proof -
  note ne = node_okD(1)[OF ok] and dist = node_okD(2)[OF ok] and len = node_okD(3)[OF ok]
    and n = node_okD(4)[OF ok] and rng = node_okD(6)[OF ok] and agree = node_okD(7)[OF ok]
  note n1 = node_ok_window_nonempty(1)[OF ok two] and two' = node_ok_window_nonempty(2)[OF ok two]
  note win = optimal_switch_column_in_window[OF two' dist len n1 agree, of opt]
  from win n rng obtain k b where osc: "optimal_switch_column opt ws cols n = Inr (k, b)"
    by blast
  with win have k: "k < n" "k < length cols" by blast+
  then have "cols ! k \<in> set (take n cols)" by (simp add: nth_in_take)
  with rng have kL: "cols ! k < L" by blast
  with len have "\<forall>x\<in>set ws. cols ! k < length (snd x)" by simp
  from split_list_per_column_Inr[OF ne this]
  obtain keys where sp: "split_list_per_column ws (cols ! k)
        = Inr (map (\<lambda>ch. (ch, filter (\<lambda>x. snd x ! (cols ! k) = ch) ws)) keys)"
    and keys: "distinct keys" "set keys = (\<lambda>x. snd x ! (cols ! k)) ` set ws"
      "sorted (map (of_char :: char \<Rightarrow> nat) keys)"
    by blast
  have "node_plan opt n ws ca = Dispatch (cols ! k) b (cols[k := cols ! (n - 1)])
        (map (\<lambda>ch. (ch, filter (\<lambda>x. snd x ! (cols ! k) = ch) ws)) keys)"
    using ne two n1 n k osc sp by (simp add: node_plan_def cols)
  then show thesis using k(1) kL keys by (rule that)
qed

lemma columns_or_range_Some: "cols \<noteq> [] \<Longrightarrow> columns_or_range (Some cols) n = cols"
  by (simp add: columns_or_range_def)

lemma columns_or_range_None: "columns_or_range None n = [0..<n]"
  by (simp add: columns_or_range_def)

lemma node_ok_child_columns:
  assumes "node_ok L n ws cols" and "1 \<le> n"
  shows "columns_or_range (Some (cols[k := v])) m = cols[k := v]"
proof -
  from node_okD(4)[OF assms(1)] assms(2) have "cols \<noteq> []" by auto
  then show ?thesis by (simp add: columns_or_range_def)
qed

lemma letter_branches_keyed:
  "\<forall>ch\<in>set keys. letter_stmts opt n (F ch) (Some cols) = Inr (body ch) \<Longrightarrow>
   letter_branches opt n cols (map (\<lambda>ch. (ch, F ch)) keys)
     = Inr (map (\<lambda>ch. (OfChar ch, body ch)) keys)"
  by (induction keys) simp_all

lemma letter_branches_Inr:
  "letter_branches opt n cols (map (\<lambda>ch. (ch, F ch)) keys) = Inr branches \<Longrightarrow>
   (\<forall>ch\<in>set keys. \<exists>body. letter_stmts opt n (F ch) (Some cols) = Inr body)
   \<and> branches = map (\<lambda>ch. (OfChar ch, projr (letter_stmts opt n (F ch) (Some cols)))) keys"
  by (induction keys arbitrary: branches) (auto split: sum.splits)

lemma length_branches_keyed:
  "\<forall>l\<in>set keys. letter_stmts opt l (F l) None = Inr (body l) \<Longrightarrow>
   length_branches opt (map (\<lambda>l. (l, F l)) keys) = Inr (map (\<lambda>l. (OfLength l, body l)) keys)"
  by (induction keys) simp_all

lemma length_branches_Inr:
  "length_branches opt (map (\<lambda>l. (l, F l)) keys) = Inr branches \<Longrightarrow>
   (\<forall>l\<in>set keys. \<exists>body. letter_stmts opt l (F l) None = Inr body)
   \<and> branches = map (\<lambda>l. (OfLength l, projr (letter_stmts opt l (F l) None))) keys"
  by (induction keys arbitrary: branches) (auto split: sum.splits)

lemma cases_paths_keyed:
  "set (cases_paths (map (\<lambda>k. (lab k, body k)) keys)) = (\<Union>k\<in>set keys. set (column_paths (body k)))"
  by (induction keys) auto

lemma if_chain_paths:
  "column_paths (map (\<lambda>(l, body). IfEq e l body) branches @ rest) =
     (case e of JSRW_LENGTH \<Rightarrow> cases_paths branches
      | JSRW_AT column \<Rightarrow> map (\<lambda>p. column # p) (cases_paths branches))
     @ column_paths rest"
  by (induction branches) (auto split: scrutinee.splits)

lemma dispatch_stmts_paths:
  "set (column_paths (dispatch_stmts col use_if branches))
     = insert [] ((\<lambda>p. col # p) ` set (cases_paths branches))"
  by (auto simp: dispatch_stmts_def if_chain_paths)

lemma switch_dispatch_paths:
  "set (column_paths (switch_dispatch use_if branches)) = insert [] (set (cases_paths branches))"
  by (auto simp: switch_dispatch_def if_chain_paths)

lemma single_stmts_paths:
  assumes "single_stmts opt n index word cols = Inr stmts" and "p \<in> set (column_paths stmts)"
  shows "p = [] \<or> p = take n cols"
  using assms by (auto simp: single_stmts_def comp_def split: if_splits)

lemma single_stmts_total:
  "\<forall>c\<in>set (take n cols). c < length word \<Longrightarrow> \<exists>stmts. single_stmts opt n index word cols = Inr stmts"
  by (auto simp: single_stmts_def)

lemma single_word:
  assumes "length ws = 1" and "x \<in> set ws"
  shows "ws = [x]"
  using assms by (cases ws) auto

lemma letter_paths:
  assumes "node_ok L n ws cols" and "columns_or_range ca n = cols"
  shows "\<exists>stmts. letter_stmts opt n ws ca = Inr stmts
           \<and> (\<forall>p\<in>set (column_paths stmts). distinct p \<and> set p \<subseteq> set (take n cols))"
  using assms
proof (induction n arbitrary: ws cols ca)
  case (0 ws cols ca)
  have one: "length ws = 1"
  proof (rule ccontr)
    assume "length ws \<noteq> 1"
    from node_ok_window_nonempty(1)[OF "0.prems"(1) this] show False by simp
  qed
  then obtain index word where ws: "ws = [(index, word)]" by (cases ws) auto
  then show ?case
    by (simp add: letter_stmts_plan node_plan_single single_stmts_def)
next
  case (Suc n ws cols ca)
  note ok = Suc.prems(1)
  show ?case
  proof (cases "length ws = 1")
    case True
    then obtain index word where ws: "ws = [(index, word)]" by (cases ws) auto
    from node_okD(3)[OF ok] ws have "length word = L" by simp
    with node_okD(6)[OF ok] have "\<forall>c\<in>set (take (Suc n) cols). c < length word" by simp
    from single_stmts_total[OF this]
    obtain stmts where st: "single_stmts opt (Suc n) index word cols = Inr stmts" by blast
    have "\<forall>p\<in>set (column_paths stmts). distinct p \<and> set p \<subseteq> set (take (Suc n) cols)"
    proof
      fix p assume "p \<in> set (column_paths stmts)"
      from single_stmts_paths[OF st this] node_okD(5)[OF ok]
      show "distinct p \<and> set p \<subseteq> set (take (Suc n) cols)" by auto
    qed
    with st show ?thesis
      by (simp add: letter_stmts_plan ws node_plan_single Suc.prems(2))
  next
    case False
    obtain k b keys where plan: "node_plan opt (Suc n) ws ca
          = Dispatch (cols ! k) b (cols[k := cols ! (Suc n - 1)])
              (map (\<lambda>ch. (ch, filter (\<lambda>x. snd x ! (cols ! k) = ch) ws)) keys)"
      and k: "k < Suc n" and kL: "cols ! k < L" and dk: "distinct keys"
      and keys: "set keys = (\<lambda>x. snd x ! (cols ! k)) ` set ws"
      and srt: "sorted (map (of_char :: char \<Rightarrow> nat) keys)"
      by (rule node_ok_dispatch[OF ok False Suc.prems(2), of opt])
    let ?cols = "cols[k := cols ! n]"
    let ?F = "\<lambda>ch. filter (\<lambda>x. snd x ! (cols ! k) = ch) ws"
    let ?body = "\<lambda>ch. projr (letter_stmts opt n (?F ch) (Some ?cols))"
    have cc: "columns_or_range (Some ?cols) n = ?cols"
      by (rule node_ok_child_columns[OF ok]) simp
    note w = window_swap_remove[OF k node_okD(4)[OF ok] node_okD(5)[OF ok], simplified]
    have child: "letter_stmts opt n (?F ch) (Some ?cols) = Inr (?body ch)
          \<and> (\<forall>p\<in>set (column_paths (?body ch)). distinct p \<and> set p \<subseteq> set (take n ?cols))"
      if "ch \<in> set keys" for ch
    proof -
      from that keys have "ch \<in> (\<lambda>x. snd x ! (cols ! k)) ` set ws" by simp
      from node_ok_group[OF ok k this] have "node_ok L n (?F ch) ?cols" by simp
      from Suc.IH[OF this cc] show ?thesis by auto
    qed
    then have "letter_branches opt n ?cols (map (\<lambda>ch. (ch, ?F ch)) keys)
        = Inr (map (\<lambda>ch. (OfChar ch, ?body ch)) keys)"
      by (intro letter_branches_keyed) simp
    with plan have st: "letter_stmts opt (Suc n) ws ca
        = Inr (dispatch_stmts (cols ! k) b (map (\<lambda>ch. (OfChar ch, ?body ch)) keys))"
      by (simp add: letter_stmts_plan)
    have "\<forall>p\<in>set (column_paths (dispatch_stmts (cols ! k) b (map (\<lambda>ch. (OfChar ch, ?body ch)) keys))).
            distinct p \<and> set p \<subseteq> set (take (Suc n) cols)"
    proof
      fix p assume "p \<in> set (column_paths (dispatch_stmts (cols ! k) b (map (\<lambda>ch. (OfChar ch, ?body ch)) keys)))"
      then consider "p = []" | ch q where "ch \<in> set keys" "q \<in> set (column_paths (?body ch))" "p = cols ! k # q"
        by (auto simp: dispatch_stmts_paths cases_paths_keyed)
      then show "distinct p \<and> set p \<subseteq> set (take (Suc n) cols)"
      proof cases
        case 1
        then show ?thesis by simp
      next
        case 2
        from child[OF 2(1)] 2(2) have q: "distinct q" "set q \<subseteq> set (take n ?cols)" by auto
        have "cols ! k \<in> set (take (Suc n) cols)"
          using k node_okD(4)[OF ok] by (intro nth_in_take) simp_all
        with q w(1) 2(3) show ?thesis by auto
      qed
    qed
    with st show ?thesis by simp
  qed
qed

subsection \<open>No column is tested twice on a path\<close>

lemma node_ok_length_group:
  assumes "distinct (map snd ws)" and "l \<in> (\<lambda>x. length (snd x)) ` set ws"
  shows "node_ok l l (filter (\<lambda>x. length (snd x) = l) ws) [0..<l]"
proof -
  let ?g = "filter (\<lambda>x. length (snd x) = l) ws"
  have "?g \<noteq> []" using assms(2) by (auto simp: filter_empty_conv)
  moreover have "distinct (map snd ?g)" using assms(1) by (rule distinct_map_filter)
  moreover have "\<forall>x\<in>set ?g. length (snd x) = l" by simp
  moreover have "l \<le> length [0..<l]" by simp
  moreover have "distinct (take l [0..<l])" by simp
  moreover have "\<forall>c\<in>set (take l [0..<l]). c < l" by simp
  moreover have "\<forall>p<l. p \<notin> set (take l [0..<l]) \<longrightarrow> (\<forall>x\<in>set ?g. \<forall>y\<in>set ?g. snd x ! p = snd y ! p)"
    by simp
  ultimately show ?thesis unfolding node_ok_def by blast
qed

lemma switch_paths:
  assumes ne: "ws \<noteq> []" and dist: "distinct (map snd ws)"
  shows "\<exists>stmts. switch_stmts opt ws = Inr stmts \<and> (\<forall>p\<in>set (column_paths stmts). distinct p)"
proof -
  let ?keys = "sorted_list_of_set (set (map (\<lambda>x. length (snd x)) ws))"
  let ?F = "\<lambda>l. filter (\<lambda>x. length (snd x) = l) ws"
  let ?body = "\<lambda>l. projr (letter_stmts opt l (?F l) None)"
  note sp = split_list_per_length_Inr[OF ne]
  have child: "letter_stmts opt l (?F l) None = Inr (?body l)
        \<and> (\<forall>p\<in>set (column_paths (?body l)). distinct p)" if "l \<in> set ?keys" for l
  proof -
    from that have "l \<in> (\<lambda>x. length (snd x)) ` set ws" by simp
    from node_ok_length_group[OF dist this] have ok: "node_ok l l (?F l) [0..<l]" .
    from letter_paths[OF ok columns_or_range_None, of opt] show ?thesis by auto
  qed
  then have "length_branches opt (map (\<lambda>l. (l, ?F l)) ?keys)
      = Inr (map (\<lambda>l. (OfLength l, ?body l)) ?keys)"
    by (intro length_branches_keyed) simp
  with switch_stmts_unfold[OF ne sp, of opt]
  have st: "switch_stmts opt ws
      = Inr (switch_dispatch (int (length ?keys) < use_if_threshold opt)
               (map (\<lambda>l. (OfLength l, ?body l)) ?keys))"
    by simp
  have "\<forall>p\<in>set (column_paths (switch_dispatch (int (length ?keys) < use_if_threshold opt)
               (map (\<lambda>l. (OfLength l, ?body l)) ?keys))). distinct p"
    using child by (auto simp: switch_dispatch_paths cases_paths_keyed)
  with st show ?thesis by simp
qed

text \<open>
  C3. For a corpus that is not empty and whose words are pairwise distinct, the generator
  succeeds, the text it writes after the header is the rendering of the statements of
  \<open>switch_stmts\<close>, and along every path of that tree, from the length dispatch to a
  statement that ends the procedure, the columns read by \<open>JSRW_AT\<close> are pairwise
  distinct: a column dispatched at an inner node is not dispatched or compared again
  below it, and the conjunction at a leaf compares only columns not yet dispatched. (The
  words need not be lowercase ASCII for this.)
\<close>

theorem no_column_tested_twice:
  assumes "ws \<noteq> []" and "distinct (map snd ws)"
  shows "\<exists>stmts. generate_switch opt ws
            = (None, emit opt (header_text (indent_level opt) ws
                               @ render_block (indent_level opt) stmts))
          \<and> switch_stmts opt ws = Inr stmts
          \<and> (\<forall>p\<in>set (column_paths stmts). distinct p)"
proof -
  from switch_paths[OF assms, of opt]
  obtain stmts where "switch_stmts opt ws = Inr stmts" "\<forall>p\<in>set (column_paths stmts). distinct p"
    by blast
  with generate_switch_renders[of opt ws stmts] show ?thesis by blast
qed

theorem no_column_tested_twice_witness:
  "switch_stmts (main_opt []) [(0, ''if''), (1, ''in''), (2, ''int'')]
     = Inr [IfEq JSRW_LENGTH (OfLength 2)
              [IfEq (JSRW_AT 1) (OfChar CHR ''f'')
                 [IfAll [(0, CHR ''i'')] [JSRW_GOT_MATCH 0 ''if''], JSRW_NO_MATCH],
               IfEq (JSRW_AT 1) (OfChar CHR ''n'')
                 [IfAll [(0, CHR ''i'')] [JSRW_GOT_MATCH 1 ''in''], JSRW_NO_MATCH],
               JSRW_NO_MATCH],
            IfEq JSRW_LENGTH (OfLength 3)
              [IfAll [(0, CHR ''i''), (1, CHR ''n''), (2, CHR ''t'')] [JSRW_GOT_MATCH 2 ''int''],
               JSRW_NO_MATCH],
            JSRW_NO_MATCH]
   \<and> column_paths (projr (switch_stmts (main_opt []) [(0, ''if''), (1, ''in''), (2, ''int'')]))
     = [[1, 0], [1], [1, 0], [1], [], [0, 1, 2], [], []]"
proof -
  let ?ws = "[(0::nat, ''if''), (1, ''in''), (2, ''int'')]"
  have ne: "?ws \<noteq> []" by simp
  have dist: "distinct (map snd ?ws)" by simp
  have val: "switch_stmts (main_opt []) ?ws
     = Inr [IfEq JSRW_LENGTH (OfLength 2)
              [IfEq (JSRW_AT 1) (OfChar CHR ''f'')
                 [IfAll [(0, CHR ''i'')] [JSRW_GOT_MATCH 0 ''if''], JSRW_NO_MATCH],
               IfEq (JSRW_AT 1) (OfChar CHR ''n'')
                 [IfAll [(0, CHR ''i'')] [JSRW_GOT_MATCH 1 ''in''], JSRW_NO_MATCH],
               JSRW_NO_MATCH],
            IfEq JSRW_LENGTH (OfLength 3)
              [IfAll [(0, CHR ''i''), (1, CHR ''n''), (2, CHR ''t'')] [JSRW_GOT_MATCH 2 ''int''],
               JSRW_NO_MATCH],
            JSRW_NO_MATCH]"
    by code_simp
  from no_column_tested_twice[OF ne dist, of "main_opt []"] val
  show ?thesis by simp
qed

subsection \<open>Running the emitted procedure on a word of the corpus\<close>

lemma eval_conds_self:
  "\<forall>c\<in>set cs. c < length w \<Longrightarrow> eval_conds w (map (\<lambda>c. (c, w ! c)) cs) = Some True"
  by (induction cs) (simp_all add: eval_scrutinee_def)

lemma exec_single_stmts:
  assumes "single_stmts opt n index word cols = Inr stmts"
    and "char_tail_test_threshold opt = 4"
  shows "exec_block word stmts = Some (if 4 < n then GUESS_MATCH index else MATCH index)"
proof -
  have "eval_conds word (map (\<lambda>c. (c, word ! c)) (take n cols)) = Some True"
    if "\<not> (\<exists>column \<in> set (take n cols). length word \<le> column)"
    using that by (intro eval_conds_self) auto
  with assms show ?thesis
    by (auto simp: single_stmts_def split: if_splits)
qed

lemma exec_if_chain_keyed:
  assumes "inj lab" and "distinct keys" and "k0 \<in> set keys"
    and "eval_scrutinee s e = Some (lab k0)" and "exec_block s (body k0) = Some r"
  shows "exec_block s (map (\<lambda>(l, b). IfEq e l b) (map (\<lambda>k. (lab k, body k)) keys) @ rest) = Some r"
  using assms(2,3)
proof (induction keys)
  case Nil
  then show ?case by simp
next
  case (Cons k keys)
  show ?case
  proof (cases "k = k0")
    case True
    with assms(4,5) show ?thesis by simp
  next
    case False
    with assms(1) have "lab k0 \<noteq> lab k" by (auto dest: injD)
    with assms(4) have "exec_stmt s (IfEq e (lab k) (body k)) = None" by simp
    moreover from Cons.prems False have "distinct keys" "k0 \<in> set keys" by auto
    ultimately show ?thesis using Cons.IH by simp
  qed
qed

lemma exec_cases_keyed:
  assumes "inj lab" and "distinct keys" and "k0 \<in> set keys"
    and "exec_block s (body k0) = Some r"
  shows "exec_cases s (lab k0) False (map (\<lambda>k. (lab k, body k)) keys) = Some r"
  using assms(2,3)
proof (induction keys)
  case Nil
  then show ?case by simp
next
  case (Cons k keys)
  show ?case
  proof (cases "k = k0")
    case True
    with assms(4) show ?thesis by simp
  next
    case False
    with assms(1) have "lab k \<noteq> lab k0" by (auto dest: injD)
    moreover from Cons.prems False have "distinct keys" "k0 \<in> set keys" by auto
    ultimately show ?thesis using Cons.IH by simp
  qed
qed

lemma inj_OfChar: "inj OfChar" and inj_OfLength: "inj OfLength"
  by (simp_all add: inj_def)

lemma exec_dispatch_stmts:
  assumes "distinct keys" and "s ! col \<in> set keys" and "col < length s"
    and "exec_block s (body (s ! col)) = Some r"
  shows "exec_block s (dispatch_stmts col use_if (map (\<lambda>k. (OfChar k, body k)) keys)) = Some r"
proof -
  have ev: "eval_scrutinee s (JSRW_AT col) = Some (OfChar (s ! col))"
    using assms(3) by (simp add: eval_scrutinee_def)
  show ?thesis
  proof (cases use_if)
    case True
    with exec_if_chain_keyed[where lab = OfChar and body = body and ?k0.0 = "s ! col"
        and rest = "[JSRW_NO_MATCH]", OF inj_OfChar assms(1,2) ev assms(4)]
    show ?thesis by (simp add: dispatch_stmts_def)
  next
    case False
    with exec_cases_keyed[where lab = OfChar and body = body and ?k0.0 = "s ! col",
        OF inj_OfChar assms(1,2,4)] ev
    show ?thesis by (simp add: dispatch_stmts_def)
  qed
qed

lemma exec_switch_dispatch:
  assumes "distinct keys" and "length s \<in> set keys"
    and "exec_block s (body (length s)) = Some r"
  shows "exec_block s (switch_dispatch use_if (map (\<lambda>k. (OfLength k, body k)) keys)) = Some r"
proof -
  have ev: "eval_scrutinee s JSRW_LENGTH = Some (OfLength (length s))"
    by (simp add: eval_scrutinee_def)
  show ?thesis
  proof (cases use_if)
    case True
    with exec_if_chain_keyed[where lab = OfLength and body = body and ?k0.0 = "length s"
        and rest = "[JSRW_NO_MATCH]", OF inj_OfLength assms(1,2) ev assms(3)]
    show ?thesis by (simp add: switch_dispatch_def)
  next
    case False
    with exec_cases_keyed[where lab = OfLength and body = body and ?k0.0 = "length s",
        OF inj_OfLength assms(1,2,3)] ev
    show ?thesis by (simp add: switch_dispatch_def)
  qed
qed

lemma letter_stmts_total:
  assumes "node_ok L n ws cols" and "columns_or_range ca n = cols"
  shows "letter_stmts opt n ws ca = Inr (projr (letter_stmts opt n ws ca))"
  using letter_paths[OF assms, of opt] by auto

lemma letter_correct:
  assumes thr: "char_tail_test_threshold opt = 4"
    and "node_ok L n ws cols" and "columns_or_range ca n = cols" and "(i, w) \<in> set ws"
  shows "\<exists>stmts m. letter_stmts opt n ws ca = Inr stmts
           \<and> letter_leaf opt n ws ca w = Some (m, [(i, w)])
           \<and> exec_block w stmts = Some (if 4 < m then GUESS_MATCH i else MATCH i)"
  using assms(2-)
proof (induction n arbitrary: ws cols ca)
  case (0 ws cols ca)
  have one: "length ws = 1"
  proof (rule ccontr)
    assume "length ws \<noteq> 1"
    from node_ok_window_nonempty(1)[OF "0.prems"(1) this] show False by simp
  qed
  from one "0.prems"(3) have ws: "ws = [(i, w)]" by (rule single_word)
  have st: "letter_stmts opt 0 ws ca = single_stmts opt 0 i w (columns_or_range ca 0)"
    by (simp add: letter_stmts_plan ws node_plan_single)
  moreover have "single_stmts opt 0 i w (columns_or_range ca 0) = Inr [JSRW_GOT_MATCH i w]"
    by (simp add: single_stmts_def)
  moreover have "letter_leaf opt 0 ws ca w = Some (0, [(i, w)])"
    by (simp add: letter_leaf_plan ws node_plan_single)
  ultimately show ?case by simp
next
  case (Suc n ws cols ca)
  note ok = Suc.prems(1)
  have wL: "length w = L" using node_okD(3)[OF ok] Suc.prems(3) by auto
  show ?case
  proof (cases "length ws = 1")
    case True
    from True Suc.prems(3) have ws: "ws = [(i, w)]" by (rule single_word)
    from node_okD(6)[OF ok] wL have "\<forall>c\<in>set (take (Suc n) cols). c < length w" by simp
    from single_stmts_total[OF this]
    obtain stmts where st: "single_stmts opt (Suc n) i w cols = Inr stmts" by blast
    have "letter_stmts opt (Suc n) ws ca = Inr stmts"
      using st by (simp add: letter_stmts_plan ws node_plan_single Suc.prems(2))
    moreover have "letter_leaf opt (Suc n) ws ca w = Some (Suc n, [(i, w)])"
      by (simp add: letter_leaf_plan ws node_plan_single)
    moreover note exec_single_stmts[OF st thr]
    ultimately show ?thesis by blast
  next
    case False
    obtain k b keys where plan: "node_plan opt (Suc n) ws ca
          = Dispatch (cols ! k) b (cols[k := cols ! (Suc n - 1)])
              (map (\<lambda>ch. (ch, filter (\<lambda>x. snd x ! (cols ! k) = ch) ws)) keys)"
      and k: "k < Suc n" and kL: "cols ! k < L" and dk: "distinct keys"
      and keys: "set keys = (\<lambda>x. snd x ! (cols ! k)) ` set ws"
      and srt: "sorted (map (of_char :: char \<Rightarrow> nat) keys)"
      by (rule node_ok_dispatch[OF ok False Suc.prems(2), of opt])
    let ?col = "cols ! k"
    let ?cols = "cols[k := cols ! n]"
    let ?F = "\<lambda>ch. filter (\<lambda>x. snd x ! ?col = ch) ws"
    let ?body = "\<lambda>ch. projr (letter_stmts opt n (?F ch) (Some ?cols))"
    have cc: "columns_or_range (Some ?cols) n = ?cols"
      by (rule node_ok_child_columns[OF ok]) simp
    have okc: "node_ok L n (?F ch) ?cols" if "ch \<in> set keys" for ch
    proof -
      from that keys have "ch \<in> (\<lambda>x. snd x ! ?col) ` set ws" by simp
      from node_ok_group[OF ok k this] show ?thesis by simp
    qed
    have "\<forall>ch\<in>set keys. letter_stmts opt n (?F ch) (Some ?cols) = Inr (?body ch)"
      using letter_stmts_total[OF okc cc] by blast
    then have "letter_branches opt n ?cols (map (\<lambda>ch. (ch, ?F ch)) keys)
        = Inr (map (\<lambda>ch. (OfChar ch, ?body ch)) keys)"
      by (rule letter_branches_keyed)
    with plan have st: "letter_stmts opt (Suc n) ws ca
        = Inr (dispatch_stmts ?col b (map (\<lambda>ch. (OfChar ch, ?body ch)) keys))"
      by (simp add: letter_stmts_plan)
    have win: "w ! ?col \<in> set keys" using keys Suc.prems(3) by force
    have mem: "(i, w) \<in> set (?F (w ! ?col))" using Suc.prems(3) by simp
    from Suc.IH[OF okc[OF win] cc mem]
    obtain m where body: "letter_stmts opt n (?F (w ! ?col)) (Some ?cols) = Inr (?body (w ! ?col))"
      and leaf: "letter_leaf opt n (?F (w ! ?col)) (Some ?cols) w = Some (m, [(i, w)])"
      and run: "exec_block w (?body (w ! ?col)) = Some (if 4 < m then GUESS_MATCH i else MATCH i)"
      by auto
    have cw: "?col < length w" using kL wL by simp
    have "letter_leaf opt (Suc n) ws ca w = Some (m, [(i, w)])"
      using plan cw leaf by (simp add: letter_leaf_plan map_of_keyed[OF win])
    moreover note exec_dispatch_stmts[where body = ?body and s = w and col = ?col
        and keys = keys and use_if = b, OF dk win cw run]
    ultimately show ?thesis using st by blast
  qed
qed

lemma switch_correct:
  assumes thr: "char_tail_test_threshold opt = 4"
    and dist: "distinct (map snd ws)" and mem: "(i, w) \<in> set ws"
  shows "\<exists>stmts m. switch_stmts opt ws = Inr stmts
           \<and> switch_leaf opt ws w = Some (m, [(i, w)])
           \<and> exec_block w stmts = Some (if 4 < m then GUESS_MATCH i else MATCH i)"
proof -
  from mem have ne: "ws \<noteq> []" by auto
  let ?keys = "sorted_list_of_set (set (map (\<lambda>x. length (snd x)) ws))"
  let ?F = "\<lambda>l. filter (\<lambda>x. length (snd x) = l) ws"
  let ?body = "\<lambda>l. projr (letter_stmts opt l (?F l) None)"
  note sp = split_list_per_length_Inr[OF ne]
  have okl: "node_ok l l (?F l) [0..<l]" if "l \<in> set ?keys" for l
  proof -
    from that have "l \<in> (\<lambda>x. length (snd x)) ` set ws" by simp
    from node_ok_length_group[OF dist this] show ?thesis .
  qed
  have "\<forall>l\<in>set ?keys. letter_stmts opt l (?F l) None = Inr (?body l)"
    using letter_stmts_total[OF okl columns_or_range_None] by blast
  then have "length_branches opt (map (\<lambda>l. (l, ?F l)) ?keys)
      = Inr (map (\<lambda>l. (OfLength l, ?body l)) ?keys)"
    by (rule length_branches_keyed)
  with switch_stmts_unfold[OF ne sp, of opt]
  have st: "switch_stmts opt ws
      = Inr (switch_dispatch (int (length ?keys) < use_if_threshold opt)
               (map (\<lambda>l. (OfLength l, ?body l)) ?keys))"
    by simp
  have win: "length w \<in> set ?keys" using mem by force
  have memg: "(i, w) \<in> set (?F (length w))" using mem by simp
  from letter_correct[OF thr okl[OF win] columns_or_range_None memg]
  obtain m where leaf: "letter_leaf opt (length w) (?F (length w)) None w = Some (m, [(i, w)])"
    and run: "exec_block w (?body (length w)) = Some (if 4 < m then GUESS_MATCH i else MATCH i)"
    by auto
  have mo: "map_of (map (\<lambda>l. (l, ?F l)) ?keys) (length w) = Some (?F (length w))"
    by (rule map_of_keyed[OF win])
  have "switch_leaf opt ws w = Some (m, [(i, w)])"
    unfolding switch_leaf_def sp sum.case mo option.case by (rule leaf)
  moreover have dk: "distinct ?keys" by simp
  note exec_switch_dispatch[where body = ?body and s = w and keys = ?keys
      and use_if = "int (length ?keys) < use_if_threshold opt", OF dk win run]
  ultimately show ?thesis using st by blast
qed

text \<open>
  C1. Let the tail-test threshold be 4 and the words of the corpus pairwise distinct. For
  every pair \<open>(i, w)\<close> of the corpus the generator succeeds, the text it writes after
  the header is the rendering of the statements \<open>stmts\<close> (in the concrete syntax that
  \<open>render_block\<close> spells out), and running these statements on the characters of \<open>w\<close>
  ends the procedure: the recursion of the generator reaches,
  for \<open>w\<close>, a call with the single candidate \<open>(i, w)\<close> and \<open>m\<close> unprocessed columns,
  and the run ends with \<open>GUESS_MATCH i\<close> when \<open>m\<close> exceeds 4 and with \<open>MATCH i\<close>
  otherwise. It never ends with \<open>NO_MATCH\<close>.
\<close>

theorem corpus_word_matches:
  assumes "char_tail_test_threshold opt = 4"
    and "distinct (map snd ws)" and "(i, w) \<in> set ws"
  shows "\<exists>stmts m. generate_switch opt ws
            = (None, emit opt (header_text (indent_level opt) ws
                               @ render_block (indent_level opt) stmts))
          \<and> switch_stmts opt ws = Inr stmts
          \<and> switch_leaf opt ws w = Some (m, [(i, w)])
          \<and> exec_block w stmts = Some (if 4 < m then GUESS_MATCH i else MATCH i)
          \<and> exec_block w stmts \<noteq> Some NO_MATCH"
proof -
  from switch_correct[OF assms]
  obtain stmts m where st: "switch_stmts opt ws = Inr stmts"
    and leaf: "switch_leaf opt ws w = Some (m, [(i, w)])"
    and run: "exec_block w stmts = Some (if 4 < m then GUESS_MATCH i else MATCH i)"
    by blast
  from run have "exec_block w stmts \<noteq> Some NO_MATCH" by simp
  with generate_switch_renders[OF st] st leaf run show ?thesis by blast
qed

theorem corpus_word_matches_witness:
  "generate_switch (main_opt []) [(0, ''if''), (1, ''in''), (2, ''instanceof'')]
     = (None, main_opt
        (''    /*'' @ [CHR 0x0A]
        @ ''     * Generating switch for the list of 3 entries:'' @ [CHR 0x0A]
        @ ''     * if'' @ [CHR 0x0A]
        @ ''     * in'' @ [CHR 0x0A]
        @ ''     * instanceof'' @ [CHR 0x0A]
        @ ''     */'' @ [CHR 0x0A]
        @ ''    if (JSRW_LENGTH() == 2) {'' @ [CHR 0x0A]
        @ ''        if (JSRW_AT(1) == '' @ [CHR 0x27] @ ''f'' @ [CHR 0x27] @ '') {'' @ [CHR 0x0A]
        @ ''            if (JSRW_AT(0)=='' @ [CHR 0x27] @ ''i'' @ [CHR 0x27] @ '') {'' @ [CHR 0x0A]
        @ ''                JSRW_GOT_MATCH(0) /* if */'' @ [CHR 0x0A]
        @ ''            }'' @ [CHR 0x0A]
        @ ''            JSRW_NO_MATCH()'' @ [CHR 0x0A]
        @ ''        }'' @ [CHR 0x0A]
        @ ''        if (JSRW_AT(1) == '' @ [CHR 0x27] @ ''n'' @ [CHR 0x27] @ '') {'' @ [CHR 0x0A]
        @ ''            if (JSRW_AT(0)=='' @ [CHR 0x27] @ ''i'' @ [CHR 0x27] @ '') {'' @ [CHR 0x0A]
        @ ''                JSRW_GOT_MATCH(1) /* in */'' @ [CHR 0x0A]
        @ ''            }'' @ [CHR 0x0A]
        @ ''            JSRW_NO_MATCH()'' @ [CHR 0x0A]
        @ ''        }'' @ [CHR 0x0A]
        @ ''        JSRW_NO_MATCH()'' @ [CHR 0x0A]
        @ ''    }'' @ [CHR 0x0A]
        @ ''    if (JSRW_LENGTH() == 10) {'' @ [CHR 0x0A]
        @ ''        JSRW_TEST_GUESS(2) /* instanceof */'' @ [CHR 0x0A]
        @ ''    }'' @ [CHR 0x0A]
        @ ''    JSRW_NO_MATCH()'' @ [CHR 0x0A]))
   \<and> switch_leaf (main_opt []) [(0, ''if''), (1, ''in''), (2, ''instanceof'')] ''in''
     = Some (1, [(1, ''in'')])
   \<and> exec_block ''in'' (projr (switch_stmts (main_opt []) [(0, ''if''), (1, ''in''), (2, ''instanceof'')]))
     = Some (MATCH 1)
   \<and> switch_leaf (main_opt []) [(0, ''if''), (1, ''in''), (2, ''instanceof'')] ''instanceof''
     = Some (10, [(2, ''instanceof'')])
   \<and> exec_block ''instanceof''
        (projr (switch_stmts (main_opt []) [(0, ''if''), (1, ''in''), (2, ''instanceof'')]))
     = Some (GUESS_MATCH 2)"
proof -
  let ?ws = "[(0::nat, ''if''), (1, ''in''), (2, ''instanceof'')]"
  have thr: "char_tail_test_threshold (main_opt []) = 4" by (simp add: main_opt_def)
  have dist: "distinct (map snd ?ws)" by simp
  have m1: "(1, ''in'') \<in> set ?ws" and m2: "(2, ''instanceof'') \<in> set ?ws" by simp_all
  have l1: "switch_leaf (main_opt []) ?ws ''in'' = Some (1, [(1, ''in'')])" by code_simp
  have l2: "switch_leaf (main_opt []) ?ws ''instanceof'' = Some (10, [(2, ''instanceof'')])"
    by code_simp
  have t: "emit (main_opt [])
             (header_text (indent_level (main_opt [])) ?ws
              @ render_block (indent_level (main_opt [])) (projr (switch_stmts (main_opt []) ?ws)))
      = main_opt
        (''    /*'' @ [CHR 0x0A]
        @ ''     * Generating switch for the list of 3 entries:'' @ [CHR 0x0A]
        @ ''     * if'' @ [CHR 0x0A]
        @ ''     * in'' @ [CHR 0x0A]
        @ ''     * instanceof'' @ [CHR 0x0A]
        @ ''     */'' @ [CHR 0x0A]
        @ ''    if (JSRW_LENGTH() == 2) {'' @ [CHR 0x0A]
        @ ''        if (JSRW_AT(1) == '' @ [CHR 0x27] @ ''f'' @ [CHR 0x27] @ '') {'' @ [CHR 0x0A]
        @ ''            if (JSRW_AT(0)=='' @ [CHR 0x27] @ ''i'' @ [CHR 0x27] @ '') {'' @ [CHR 0x0A]
        @ ''                JSRW_GOT_MATCH(0) /* if */'' @ [CHR 0x0A]
        @ ''            }'' @ [CHR 0x0A]
        @ ''            JSRW_NO_MATCH()'' @ [CHR 0x0A]
        @ ''        }'' @ [CHR 0x0A]
        @ ''        if (JSRW_AT(1) == '' @ [CHR 0x27] @ ''n'' @ [CHR 0x27] @ '') {'' @ [CHR 0x0A]
        @ ''            if (JSRW_AT(0)=='' @ [CHR 0x27] @ ''i'' @ [CHR 0x27] @ '') {'' @ [CHR 0x0A]
        @ ''                JSRW_GOT_MATCH(1) /* in */'' @ [CHR 0x0A]
        @ ''            }'' @ [CHR 0x0A]
        @ ''            JSRW_NO_MATCH()'' @ [CHR 0x0A]
        @ ''        }'' @ [CHR 0x0A]
        @ ''        JSRW_NO_MATCH()'' @ [CHR 0x0A]
        @ ''    }'' @ [CHR 0x0A]
        @ ''    if (JSRW_LENGTH() == 10) {'' @ [CHR 0x0A]
        @ ''        JSRW_TEST_GUESS(2) /* instanceof */'' @ [CHR 0x0A]
        @ ''    }'' @ [CHR 0x0A]
        @ ''    JSRW_NO_MATCH()'' @ [CHR 0x0A])"
    by code_simp
  from corpus_word_matches[OF thr dist m1] l1
  have e1: "exec_block ''in'' (projr (switch_stmts (main_opt []) ?ws)) = Some (MATCH 1)"
    and g: "generate_switch (main_opt []) ?ws
      = (None, emit (main_opt [])
             (header_text (indent_level (main_opt [])) ?ws
              @ render_block (indent_level (main_opt [])) (projr (switch_stmts (main_opt []) ?ws))))"
    by auto
  from corpus_word_matches[OF thr dist m2] l2
  have e2: "exec_block ''instanceof'' (projr (switch_stmts (main_opt []) ?ws)) = Some (GUESS_MATCH 2)"
    by auto
  from g l1 l2 e1 e2 show ?thesis unfolding t by simp
qed

subsection \<open>Where the guess leaf is emitted\<close>








subsection \<open>The dispatch on the length\<close>

lemma generate_switch_succeeds:
  assumes "fst (generate_switch opt ws) = None"
  obtains stmts where "switch_stmts opt ws = Inr stmts"
    "generate_switch opt ws
       = (None, emit opt (header_text (indent_level opt) ws @ render_block (indent_level opt) stmts))"
proof (cases "switch_stmts opt ws")
  case (Inl e)
  from generate_switch_raises[OF this] assms show ?thesis by simp
next
  case (Inr stmts)
  from this generate_switch_renders[OF this] show ?thesis by (rule that)
qed

text \<open>
  C6. With the threshold 3: when \<open>generate_switch\<close> succeeds, the statements after the
  header have one branch for each length that occurs in the corpus, in strictly ascending
  order of the length, and the body of the branch for a length is what
  \<open>generate_letter_switch\<close> produces for the words of that length. The branches form a
  chain of \<open>if (JSRW_LENGTH() == l)\<close> statements when there are fewer than 3 distinct
  lengths and the cases of one \<open>switch (JSRW_LENGTH())\<close> otherwise; \<open>JSRW_NO_MATCH\<close>
  follows in both forms.
\<close>

theorem length_dispatch_ascending:
  assumes thr: "use_if_threshold opt = 3" and run: "fst (generate_switch opt ws) = None"
  shows "\<exists>stmts bodies.
           generate_switch opt ws
             = (None, emit opt (header_text (indent_level opt) ws
                                @ render_block (indent_level opt) stmts))
         \<and> sorted_wrt (<) (sorted_list_of_set (set (map (\<lambda>x. length (snd x)) ws)))
         \<and> (\<forall>l\<in>set (map (\<lambda>x. length (snd x)) ws).
               letter_stmts opt l (filter (\<lambda>x. length (snd x) = l) ws) None = Inr (bodies l))
         \<and> stmts =
             (if length (sorted_list_of_set (set (map (\<lambda>x. length (snd x)) ws))) < 3
              then map (\<lambda>l. IfEq JSRW_LENGTH (OfLength l) (bodies l))
                       (sorted_list_of_set (set (map (\<lambda>x. length (snd x)) ws)))
                   @ [JSRW_NO_MATCH]
              else [SwitchOn JSRW_LENGTH
                      (map (\<lambda>l. (OfLength l, bodies l))
                           (sorted_list_of_set (set (map (\<lambda>x. length (snd x)) ws)))),
                    JSRW_NO_MATCH])"
proof -
  let ?keys = "sorted_list_of_set (set (map (\<lambda>x. length (snd x)) ws))"
  let ?F = "\<lambda>l. filter (\<lambda>x. length (snd x) = l) ws"
  let ?body = "\<lambda>l. projr (letter_stmts opt l (?F l) None)"
  from run obtain stmts where st: "switch_stmts opt ws = Inr stmts"
    and gen: "generate_switch opt ws
       = (None, emit opt (header_text (indent_level opt) ws @ render_block (indent_level opt) stmts))"
    by (rule generate_switch_succeeds)
  from st have ne: "ws \<noteq> []" by (auto simp: switch_stmts_def)
  note sp = split_list_per_length_Inr[OF ne]
  from st switch_stmts_unfold[OF ne sp, of opt]
  obtain branches where br: "length_branches opt (map (\<lambda>l. (l, ?F l)) ?keys) = Inr branches"
    and stmts: "stmts = switch_dispatch (int (length ?keys) < use_if_threshold opt) branches"
    by (auto split: sum.splits)
  from length_branches_Inr[OF br]
  have bodies: "\<forall>l\<in>set ?keys. letter_stmts opt l (?F l) None = Inr (?body l)"
    and branches: "branches = map (\<lambda>l. (OfLength l, ?body l)) ?keys"
    by auto
  have "stmts = (if length ?keys < 3
              then map (\<lambda>l. IfEq JSRW_LENGTH (OfLength l) (?body l)) ?keys @ [JSRW_NO_MATCH]
              else [SwitchOn JSRW_LENGTH (map (\<lambda>l. (OfLength l, ?body l)) ?keys), JSRW_NO_MATCH])"
    unfolding stmts branches thr by (simp add: switch_dispatch_def comp_def)
  moreover have "sorted_wrt (<) ?keys" by simp
  moreover from bodies have "\<forall>l\<in>set (map (\<lambda>x. length (snd x)) ws).
               letter_stmts opt l (?F l) None = Inr (?body l)" by simp
  ultimately show ?thesis using gen
    by (intro exI[of _ stmts] exI[of _ ?body]) blast
qed

theorem length_dispatch_ascending_witness:
  "fst (generate_switch (main_opt []) [(0, ''int''), (1, ''if''), (2, ''in'')]) = None
   \<and> sorted_list_of_set (set (map (\<lambda>x. length (snd x)) [(0::nat, ''int''), (1, ''if''), (2, ''in'')]))
       = [2, 3]
   \<and> switch_stmts (main_opt []) [(0, ''int''), (1, ''if''), (2, ''in'')]
     = Inr [IfEq JSRW_LENGTH (OfLength 2)
              [IfEq (JSRW_AT 1) (OfChar CHR ''f'')
                 [IfAll [(0, CHR ''i'')] [JSRW_GOT_MATCH 1 ''if''], JSRW_NO_MATCH],
               IfEq (JSRW_AT 1) (OfChar CHR ''n'')
                 [IfAll [(0, CHR ''i'')] [JSRW_GOT_MATCH 2 ''in''], JSRW_NO_MATCH],
               JSRW_NO_MATCH],
            IfEq JSRW_LENGTH (OfLength 3)
              [IfAll [(0, CHR ''i''), (1, CHR ''n''), (2, CHR ''t'')] [JSRW_GOT_MATCH 0 ''int''],
               JSRW_NO_MATCH],
            JSRW_NO_MATCH]"
proof -
  let ?ws = "[(0::nat, ''int''), (1, ''if''), (2, ''in'')]"
  have thr: "use_if_threshold (main_opt []) = 3" by (simp add: main_opt_def)
  have run: "fst (generate_switch (main_opt []) ?ws) = None" by code_simp
  have lens: "sorted_list_of_set (set (map (\<lambda>x. length (snd x)) ?ws)) = [2, 3]" by code_simp
  have val: "switch_stmts (main_opt []) ?ws
     = Inr [IfEq JSRW_LENGTH (OfLength 2)
              [IfEq (JSRW_AT 1) (OfChar CHR ''f'')
                 [IfAll [(0, CHR ''i'')] [JSRW_GOT_MATCH 1 ''if''], JSRW_NO_MATCH],
               IfEq (JSRW_AT 1) (OfChar CHR ''n'')
                 [IfAll [(0, CHR ''i'')] [JSRW_GOT_MATCH 2 ''in''], JSRW_NO_MATCH],
               JSRW_NO_MATCH],
            IfEq JSRW_LENGTH (OfLength 3)
              [IfAll [(0, CHR ''i''), (1, CHR ''n''), (2, CHR ''t'')] [JSRW_GOT_MATCH 0 ''int''],
               JSRW_NO_MATCH],
            JSRW_NO_MATCH]"
    by code_simp
  from length_dispatch_ascending[OF thr run] run lens val
  show ?thesis by simp
qed

subsection \<open>The header comment\<close>

lemma line_output: "output_sink (line opt s) = output_sink opt @ text_line (indent_level opt) s"
  by (simp add: line_emit)

lemma gls_branches_appends:
  assumes node: "\<And>opt ws. \<exists>t. output_sink (snd (generate_letter_switch opt n ws (Some cols)))
                                 = output_sink opt @ t"
  shows "\<exists>t. output_sink (snd (gls_branches opt n use_if col cols groups)) = output_sink opt @ t"
proof (induction groups arbitrary: opt)
  case Nil
  show ?case by simp
next
  case (Cons g groups opt)
  obtain ch ws where g: "g = (ch, ws)" by (cases g)
  define opt1 where "opt1 = indent (if use_if then line opt (if_at_line col ch)
                                    else line opt (case_char_line ch))"
  have "\<exists>t1. output_sink opt1 = output_sink opt @ t1"
    by (cases use_if) (simp_all add: opt1_def line_emit)
  then obtain t1 where t1: "output_sink opt1 = output_sink opt @ t1" by blast
  obtain e opt2 where r: "generate_letter_switch opt1 n ws (Some cols) = (e, opt2)"
    by (cases "generate_letter_switch opt1 n ws (Some cols)")
  from node[of opt1 ws] r obtain t2 where t2: "output_sink opt2 = output_sink opt1 @ t2"
    by auto
  show ?case
  proof (cases e)
    case (Some err)
    with r t1 t2 show ?thesis by (simp add: g opt1_def[symmetric] Let_def)
  next
    case None
    define opt3 where "opt3 = (let o2 = dedent opt2 in if use_if then line o2 ''}'' else o2)"
    have "\<exists>t3. output_sink opt3 = output_sink opt2 @ t3"
      by (cases use_if) (simp_all add: opt3_def Let_def line_emit dedent_def)
    then obtain t3 where t3: "output_sink opt3 = output_sink opt2 @ t3" by blast
    from Cons.IH[of opt3] obtain t4 where
      "output_sink (snd (gls_branches opt3 n use_if col cols groups)) = output_sink opt3 @ t4"
      by blast
    moreover have "gls_branches opt n use_if col cols (g # groups)
        = gls_branches opt3 n use_if col cols groups"
      using r None by (simp add: g opt1_def[symmetric] opt3_def Let_def)
    ultimately show ?thesis using t1 t2 t3 by simp
  qed
qed

lemma generate_letter_switch_appends:
  "\<exists>t. output_sink (snd (generate_letter_switch opt n ws ca)) = output_sink opt @ t"
proof (induction n arbitrary: opt ws ca)
  case (0 opt ws ca)
  show ?case
  proof (cases "node_plan opt 0 ws ca")
    case (Fail e)
    then show ?thesis by (simp add: generate_letter_switch_plan)
  next
    case (Single index word columns)
    then show ?thesis by (simp add: generate_letter_switch_plan split: sum.splits)
  next
    case (Dispatch col use_if columns groups)
    from node_plan_Dispatch_pos[OF this] show ?thesis by simp
  qed
next
  case (Suc n opt ws ca)
  show ?case
  proof (cases "node_plan opt (Suc n) ws ca")
    case (Fail e)
    then show ?thesis by (simp add: generate_letter_switch_plan)
  next
    case (Single index word columns)
    then show ?thesis by (simp add: generate_letter_switch_plan split: sum.splits)
  next
    case (Dispatch col use_if columns groups)
    define opt1 where "opt1 = (if \<not> use_if then line opt (switch_at_line col) else opt)"
    have "\<exists>t1. output_sink opt1 = output_sink opt @ t1"
      by (cases use_if) (simp_all add: opt1_def line_emit)
    then obtain t1 where t1: "output_sink opt1 = output_sink opt @ t1" by blast
    obtain e opt2 where r: "gls_branches opt1 n use_if col columns groups = (e, opt2)"
      by (cases "gls_branches opt1 n use_if col columns groups")
    have "\<exists>t. output_sink (snd (gls_branches opt1 n use_if col columns groups)) = output_sink opt1 @ t"
      by (rule gls_branches_appends) (rule Suc.IH)
    with r obtain t2 where t2: "output_sink opt2 = output_sink opt1 @ t2" by auto
    have "generate_letter_switch opt (Suc n) ws ca =
        (case e of Some err \<Rightarrow> (Some err, opt2)
         | None \<Rightarrow> (None, line (if \<not> use_if then line opt2 ''}'' else opt2) ''JSRW_NO_MATCH()''))"
      using Dispatch r by (simp add: generate_letter_switch_plan opt1_def)
    with t1 t2 show ?thesis by (cases e) (simp_all add: line_emit)
  qed
qed

lemma gs_branches_appends:
  "\<exists>t. output_sink (snd (gs_branches opt use_if groups)) = output_sink opt @ t"
proof (induction groups arbitrary: opt)
  case Nil
  show ?case by simp
next
  case (Cons g groups opt)
  obtain len ws where g: "g = (len, ws)" by (cases g)
  define opt1 where "opt1 = indent (if use_if then line opt (if_length_line len)
                                    else line opt (case_length_line len))"
  have "\<exists>t1. output_sink opt1 = output_sink opt @ t1"
    by (cases use_if) (simp_all add: opt1_def line_emit)
  then obtain t1 where t1: "output_sink opt1 = output_sink opt @ t1" by blast
  obtain e opt2 where r: "generate_letter_switch opt1 len ws None = (e, opt2)"
    by (cases "generate_letter_switch opt1 len ws None")
  from generate_letter_switch_appends[of opt1 len ws None] r
  obtain t2 where t2: "output_sink opt2 = output_sink opt1 @ t2" by auto
  show ?case
  proof (cases e)
    case (Some err)
    with r t1 t2 show ?thesis by (simp add: g opt1_def[symmetric] Let_def)
  next
    case None
    define opt3 where "opt3 = (let o2 = dedent opt2 in if use_if then line o2 ''}'' else o2)"
    have "\<exists>t3. output_sink opt3 = output_sink opt2 @ t3"
      by (cases use_if) (simp_all add: opt3_def Let_def line_emit dedent_def)
    then obtain t3 where t3: "output_sink opt3 = output_sink opt2 @ t3" by blast
    from Cons.IH[of opt3] obtain t4 where
      "output_sink (snd (gs_branches opt3 use_if groups)) = output_sink opt3 @ t4"
      by blast
    moreover have "gs_branches opt use_if (g # groups) = gs_branches opt3 use_if groups"
      using r None by (simp add: g opt1_def[symmetric] opt3_def Let_def)
    ultimately show ?thesis using t1 t2 t3 by simp
  qed
qed

text \<open>
  C8, as the code has it. For every word list that is not empty, what \<open>generate_switch\<close>
  leaves in the sink begins, after what the sink held before, with the header comment:
  the line \<open>/*\<close>, a line with the number of entries, one line \<open> * word\<close> for each
  entry in the order of the list, and the line \<open> */\<close>, each at the current
  indentation. This holds also when the generator raises later on. The lines carry the
  words only.
\<close>

theorem header_lists_words:
  assumes "ws \<noteq> []"
  shows "\<exists>rest. output_sink (snd (generate_switch opt ws))
           = output_sink opt
             @ concat (map (text_line (indent_level opt))
                 ([''/*'',
                   '' * Generating switch for the list of '' @ str_nat (length ws) @ '' entries:'']
                  @ map (\<lambda>(index, word). '' * '' @ word) ws
                  @ ['' */'']))
             @ rest"
proof -
  from split_list_per_length_Inr[OF assms]
  obtain groups where sp: "split_list_per_length ws = Inr groups" by blast
  define use_if where "use_if = (int (length groups) < use_if_threshold opt)"
  define opt1 where "opt1 = (let hdr = write_header opt ws in
            if \<not> use_if then line hdr ''switch (JSRW_LENGTH()) {'' else hdr)"
  have "\<exists>t1. output_sink opt1 = output_sink opt @ header_text (indent_level opt) ws @ t1"
    by (cases use_if) (simp_all add: opt1_def write_header_emit line_emit Let_def)
  then obtain t1 where t1: "output_sink opt1 = output_sink opt @ header_text (indent_level opt) ws @ t1" by blast
  obtain e opt2 where r: "gs_branches opt1 use_if groups = (e, opt2)"
    by (cases "gs_branches opt1 use_if groups")
  from gs_branches_appends[of opt1 use_if groups] r
  obtain t2 where t2: "output_sink opt2 = output_sink opt1 @ t2" by auto
  have "generate_switch opt ws =
      (case gs_branches opt1 use_if groups of
         (Some e, opt') \<Rightarrow> (Some e, opt')
       | (None, opt') \<Rightarrow>
           (None, line (if \<not> use_if then line opt' ''}'' else opt') ''JSRW_NO_MATCH()''))"
    using assms sp
    by (simp add: generate_switch_def Let_def opt1_def use_if_def write_header_emit
          split: prod.splits option.splits)
  with r have "generate_switch opt ws =
      (case e of Some err \<Rightarrow> (Some err, opt2)
       | None \<Rightarrow> (None, line (if \<not> use_if then line opt2 ''}'' else opt2) ''JSRW_NO_MATCH()''))"
    by (simp split: option.splits)
  with t1 t2 have "\<exists>rest. output_sink (snd (generate_switch opt ws))
      = output_sink opt @ header_text (indent_level opt) ws @ rest"
    by (cases e) (simp_all add: line_emit)
  then show ?thesis by (simp add: header_text_def header_lines_def)
qed

theorem header_lists_words_witness:
  "\<exists>rest. output_sink (snd (generate_switch (main_opt []) [(5, ''do'')]))
      = ''    /*'' @ [CHR 0x0A]
        @ ''     * Generating switch for the list of 1 entries:'' @ [CHR 0x0A]
        @ ''     * do'' @ [CHR 0x0A]
        @ ''     */'' @ [CHR 0x0A]
        @ rest"
proof -
  have ne: "[(5::nat, ''do'')] \<noteq> []" by simp
  have lvl: "indent_level (main_opt []) = 1" and out: "output_sink (main_opt []) = []"
    by (simp_all add: main_opt_def)
  have hdr: "concat (map (text_line 1)
                 ([''/*'',
                   '' * Generating switch for the list of '' @ str_nat (length [(5::nat, ''do'')])
                     @ '' entries:'']
                  @ map (\<lambda>(index, word). '' * '' @ word) [(5::nat, ''do'')]
                  @ ['' */'']))
      = ''    /*'' @ [CHR 0x0A]
        @ ''     * Generating switch for the list of 1 entries:'' @ [CHR 0x0A]
        @ ''     * do'' @ [CHR 0x0A]
        @ ''     */'' @ [CHR 0x0A]"
    by code_simp
  from header_lists_words[OF ne, of "main_opt []"]
  show ?thesis unfolding lvl out hdr by simp
qed

text \<open>
  C8, as stated, fails: the header written for the single entry \<open>(5, do)\<close> is the text
  below, in which the index 5 does not occur, and it is the header written for
  \<open>(0, do)\<close> as well.
\<close>

theorem header_omits_index:
  "output_sink (write_header (main_opt []) [(5, ''do'')])
      = ''    /*'' @ [CHR 0x0A]
        @ ''     * Generating switch for the list of 1 entries:'' @ [CHR 0x0A]
        @ ''     * do'' @ [CHR 0x0A]
        @ ''     */'' @ [CHR 0x0A]
   \<and> CHR ''5'' \<notin> set (output_sink (write_header (main_opt []) [(5, ''do'')]))
   \<and> write_header (main_opt []) [(5, ''do'')] = write_header (main_opt []) [(0, ''do'')]"
  by code_simp

subsection \<open>The output for two listings of one corpus\<close>

lemma span_and_count_at_set:
  assumes "set ws = set ws'"
  shows "span_and_count_at ws c = span_and_count_at ws' c"
proof -
  have e: "(ws = []) = (ws' = [])" using assms by (metis set_empty)
  have s: "sort (remdups (map f ws)) = sort (remdups (map f ws'))" for f :: "reserved_word \<Rightarrow> int"
  proof -
    have "sort (remdups (map f ws)) = sorted_list_of_set (set (map f ws))"
      by (simp only: sorted_list_of_set_sort_remdups)
    also have "set (map f ws) = set (map f ws')" using assms by simp
    also have "sorted_list_of_set (set (map f ws')) = sort (remdups (map f ws'))"
      by (simp only: sorted_list_of_set_sort_remdups)
    finally show ?thesis .
  qed
  show ?thesis
    unfolding span_and_count_at_def Let_def s[of "\<lambda>(index, word). of_char (word ! c)"]
    using e assms by simp
qed

lemma osc_scan_words:
  assumes w: "\<And>c. span_and_count_at ws c = span_and_count_at ws' c"
  shows "osc_scan opt ws cols n i mc ms mci msi = osc_scan opt ws' cols n i mc ms mci msi"
proof (induction "n - i" arbitrary: i mc ms mci msi)
  case 0
  then have "\<not> i < n" by simp
  then show ?case by (simp add: osc_scan_end)
next
  case (Suc d)
  then have d: "d = n - Suc i" and lt: "i < n" by simp_all
  show ?case
  proof (cases "i < length cols")
    case False
    with lt show ?thesis by (simp add: osc_scan_short)
  next
    case True
    show ?thesis
    proof (cases "span_and_count_at ws (cols ! i)")
      case (Inl e)
      with w[of "cols ! i"] have sc': "span_and_count_at ws' (cols ! i) = Inl e" by simp
      show ?thesis
        unfolding osc_scan_raise[OF lt True Inl] osc_scan_raise[OF lt True sc'] ..
    next
      case (Inr r)
      obtain sp ct where r: "r = (sp, ct)" by (cases r)
      with Inr have sc: "span_and_count_at ws (cols ! i) = Inr (sp, ct)" by simp
      with w[of "cols ! i"] have sc': "span_and_count_at ws' (cols ! i) = Inr (sp, ct)" by simp
      show ?thesis
      proof (cases "sp = 1")
        case True
        with sc sc' have s1: "span_and_count_at ws (cols ! i) = Inr (1, ct)"
          and s1': "span_and_count_at ws' (cols ! i) = Inr (1, ct)" by simp_all
        show ?thesis
          unfolding osc_scan_early[OF lt \<open>i < length cols\<close> s1]
            osc_scan_early[OF lt \<open>i < length cols\<close> s1'] ..
      next
        case False
        show ?thesis
          unfolding osc_scan_step[OF lt True sc False] osc_scan_step[OF lt True sc' False]
          by (rule Suc.hyps(1)[OF d])
      qed
    qed
  qed
qed

lemma reordered_length: "reordered ws ws' \<Longrightarrow> length ws = length ws'"
  unfolding reordered_def by (metis distinct_card)

lemma reordered_filter: "reordered ws ws' \<Longrightarrow> reordered (filter P ws) (filter P ws')"
  by (simp add: reordered_def)

lemma reordered_single: "reordered [x] ws' \<Longrightarrow> ws' = [x]"
proof -
  assume r: "reordered [x] ws'"
  from reordered_length[OF r] obtain y where "ws' = [y]" by (cases ws') auto
  with r show ?thesis by (simp add: reordered_def)
qed

lemma optimal_switch_column_reordered:
  assumes "reordered ws ws'"
  shows "optimal_switch_column opt ws cols n = optimal_switch_column opt ws' cols n"
proof -
  from assms have s: "set ws = set ws'" by (simp add: reordered_def)
  have "osc_scan opt ws cols n 0 0 0 0 0 = osc_scan opt ws' cols n 0 0 0 0 0"
    by (rule osc_scan_words) (rule span_and_count_at_set[OF s])
  then show ?thesis
    unfolding optimal_switch_column_def using reordered_length[OF assms] by simp
qed

lemma split_list_per_column_reordered:
  assumes r: "reordered ws ws'"
  shows "(\<exists>e. split_list_per_column ws c = Inl e \<and> split_list_per_column ws' c = Inl e)
       \<or> (\<exists>keys. split_list_per_column ws c
                     = Inr (map (\<lambda>k. (k, filter (\<lambda>x. snd x ! c = k) ws)) keys)
                 \<and> split_list_per_column ws' c
                     = Inr (map (\<lambda>k. (k, filter (\<lambda>x. snd x ! c = k) ws')) keys))"
proof -
  from r have s: "set ws = set ws'" by (simp add: reordered_def)
  note l = reordered_length[OF r]
  show ?thesis
  proof (cases "ws = []")
    case True
    with l show ?thesis by (simp add: split_list_per_column_def)
  next
    case ne: False
    with l have ne': "ws' \<noteq> []" by auto
    show ?thesis
    proof (cases "\<forall>x\<in>set ws. c < length (snd x)")
      case False
      then have "\<exists>(index, word) \<in> set ws. length word \<le> c" by fastforce
      moreover with s have "\<exists>(index, word) \<in> set ws'. length word \<le> c" by simp
      ultimately show ?thesis using ne ne' by (simp add: split_list_per_column_def)
    next
      case True
      with s have True': "\<forall>x\<in>set ws'. c < length (snd x)" by simp
      from split_list_per_column_Inr[OF ne True]
      obtain keys where k: "split_list_per_column ws c
            = Inr (map (\<lambda>k. (k, filter (\<lambda>x. snd x ! c = k) ws)) keys)"
        "distinct keys" "set keys = (\<lambda>x. snd x ! c) ` set ws"
        "sorted (map (of_char :: char \<Rightarrow> nat) keys)" by blast
      from split_list_per_column_Inr[OF ne' True']
      obtain keys' where k': "split_list_per_column ws' c
            = Inr (map (\<lambda>k. (k, filter (\<lambda>x. snd x ! c = k) ws')) keys')"
        "distinct keys'" "set keys' = (\<lambda>x. snd x ! c) ` set ws'"
        "sorted (map (of_char :: char \<Rightarrow> nat) keys')" by blast
      have "keys = keys'"
        using inj_of_char_nat k(2) k'(2) _ k(4) k'(4)
        by (rule sorted_keys_unique) (simp add: k(3) k'(3) s)
      with k(1) k'(1) show ?thesis by blast
    qed
  qed
qed

lemma letter_branches_cong:
  "\<forall>k\<in>set keys. letter_stmts opt n (F k) (Some cols) = letter_stmts opt n (F' k) (Some cols) \<Longrightarrow>
   letter_branches opt n cols (map (\<lambda>k. (k, F k)) keys)
     = letter_branches opt n cols (map (\<lambda>k. (k, F' k)) keys)"
  by (induction keys) (auto split: sum.splits)

lemma length_branches_cong:
  "\<forall>k\<in>set keys. letter_stmts opt k (F k) None = letter_stmts opt k (F' k) None \<Longrightarrow>
   length_branches opt (map (\<lambda>k. (k, F k)) keys) = length_branches opt (map (\<lambda>k. (k, F' k)) keys)"
  by (induction keys) (auto split: sum.splits)

lemma node_plan_inner:
  assumes "ws \<noteq> []" and "length ws \<noteq> 1" and "n \<noteq> 0"
  shows "node_plan opt n ws ca =
     (case optimal_switch_column opt ws (columns_or_range ca n) n of
        Inl e \<Rightarrow> Fail e
      | Inr (k, b) \<Rightarrow>
          (if length (columns_or_range ca n) \<le> k \<or> length (columns_or_range ca n) \<le> n - 1
           then Fail IndexError
           else (case split_list_per_column ws (columns_or_range ca n ! k) of
                   Inl e \<Rightarrow> Fail e
                 | Inr groups \<Rightarrow>
                     Dispatch (columns_or_range ca n ! k) b
                       ((columns_or_range ca n)[k := columns_or_range ca n ! (n - 1)]) groups)))"
  using assms by (simp add: node_plan_def Let_def split: sum.splits prod.splits)

lemma node_plan_reordered:
  assumes r: "reordered ws ws'"
  shows "(\<exists>e. node_plan opt n ws ca = Fail e \<and> node_plan opt n ws' ca = Fail e)
       \<or> (\<exists>i w cols. node_plan opt n ws ca = Single i w cols
                      \<and> node_plan opt n ws' ca = Single i w cols)
       \<or> (\<exists>col b cols keys.
             node_plan opt n ws ca
               = Dispatch col b cols (map (\<lambda>k. (k, filter (\<lambda>x. snd x ! col = k) ws)) keys)
           \<and> node_plan opt n ws' ca
               = Dispatch col b cols (map (\<lambda>k. (k, filter (\<lambda>x. snd x ! col = k) ws')) keys))"
proof -
  note l = reordered_length[OF r]
  let ?cols = "columns_or_range ca n"
  note osc = optimal_switch_column_reordered[OF r, of opt ?cols n]
  show ?thesis
  proof (cases "ws = []")
    case True
    with l have "ws' = []" by simp
    with True have "node_plan opt n ws ca = Fail AssertionError"
      "node_plan opt n ws' ca = Fail AssertionError" by (simp_all add: node_plan_def)
    then show ?thesis by blast
  next
    case ne: False
    with l have ne': "ws' \<noteq> []" by auto
    show ?thesis
    proof (cases "length ws = 1")
      case True
      then obtain x where ws: "ws = [x]" by (cases ws) auto
      with r have ws': "ws' = [x]" by (simp add: reordered_single)
      obtain i w where x: "x = (i, w)" by (cases x)
      have "node_plan opt n ws ca = Single i w ?cols" "node_plan opt n ws' ca = Single i w ?cols"
        unfolding ws ws' x by (rule node_plan_single)+
      then show ?thesis by blast
    next
      case one: False
      with l have one': "length ws' \<noteq> 1" by simp
      show ?thesis
      proof (cases "n = 0")
        case True
        with ne ne' one one' have "node_plan opt n ws ca = Fail AssertionError"
          "node_plan opt n ws' ca = Fail AssertionError" by (simp_all add: node_plan_def)
        then show ?thesis by blast
      next
        case n0: False
        note p = node_plan_inner[OF ne one n0, of opt ca]
        note p' = node_plan_inner[OF ne' one' n0, of opt ca]
        show ?thesis
        proof (cases "optimal_switch_column opt ws ?cols n")
          case (Inl e)
          with osc have o': "optimal_switch_column opt ws' ?cols n = Inl e" by simp
          have "node_plan opt n ws ca = Fail e" "node_plan opt n ws' ca = Fail e"
            unfolding p p' Inl o' by simp_all
          then show ?thesis by blast
        next
          case (Inr kb)
          obtain k b where kb: "kb = (k, b)" by (cases kb)
          with Inr have o: "optimal_switch_column opt ws ?cols n = Inr (k, b)" by simp
          with osc have o': "optimal_switch_column opt ws' ?cols n = Inr (k, b)" by simp
          show ?thesis
          proof (cases "length ?cols \<le> k \<or> length ?cols \<le> n - 1")
            case True
            then have "node_plan opt n ws ca = Fail IndexError"
              "node_plan opt n ws' ca = Fail IndexError"
              unfolding p p' o o' by simp_all
            then show ?thesis by blast
          next
            case False
            from split_list_per_column_reordered[OF r, of "?cols ! k"]
            show ?thesis
            proof (elim disjE exE conjE)
              fix e assume sp: "split_list_per_column ws (?cols ! k) = Inl e"
                and sp': "split_list_per_column ws' (?cols ! k) = Inl e"
              from False have "node_plan opt n ws ca = Fail e" "node_plan opt n ws' ca = Fail e"
                unfolding p p' o o' by (simp_all add: sp sp')
              then show ?thesis by blast
            next
              fix keys
              assume sp: "split_list_per_column ws (?cols ! k)
                    = Inr (map (\<lambda>ka. (ka, filter (\<lambda>x. snd x ! (?cols ! k) = ka) ws)) keys)"
                and sp': "split_list_per_column ws' (?cols ! k)
                    = Inr (map (\<lambda>ka. (ka, filter (\<lambda>x. snd x ! (?cols ! k) = ka) ws')) keys)"
              from False
              have "node_plan opt n ws ca = Dispatch (?cols ! k) b (?cols[k := ?cols ! (n - 1)])
                      (map (\<lambda>ka. (ka, filter (\<lambda>x. snd x ! (?cols ! k) = ka) ws)) keys)"
                and "node_plan opt n ws' ca = Dispatch (?cols ! k) b (?cols[k := ?cols ! (n - 1)])
                      (map (\<lambda>ka. (ka, filter (\<lambda>x. snd x ! (?cols ! k) = ka) ws')) keys)"
                unfolding p p' o o' by (simp_all add: sp sp')
              then show ?thesis by blast
            qed
          qed
        qed
      qed
    qed
  qed
qed

lemma letter_stmts_reordered:
  "reordered ws ws' \<Longrightarrow> letter_stmts opt n ws ca = letter_stmts opt n ws' ca"
proof (induction n arbitrary: ws ws' ca)
  case (0 ws ws' ca)
  from node_plan_reordered[OF "0.prems", of opt 0 ca] show ?case
  proof (elim disjE exE conjE)
    fix col b cols keys
    assume "node_plan opt 0 ws ca
               = Dispatch col b cols (map (\<lambda>k. (k, filter (\<lambda>x. snd x ! col = k) ws)) keys)"
    from node_plan_Dispatch_pos[OF this] show ?thesis by simp
  qed (simp_all add: letter_stmts_plan)
next
  case (Suc n ws ws' ca)
  from node_plan_reordered[OF Suc.prems, of opt "Suc n" ca] show ?case
  proof (elim disjE exE conjE)
    fix col b cols keys
    assume p: "node_plan opt (Suc n) ws ca
               = Dispatch col b cols (map (\<lambda>k. (k, filter (\<lambda>x. snd x ! col = k) ws)) keys)"
      and p': "node_plan opt (Suc n) ws' ca
               = Dispatch col b cols (map (\<lambda>k. (k, filter (\<lambda>x. snd x ! col = k) ws')) keys)"
    have "\<forall>k\<in>set keys. letter_stmts opt n (filter (\<lambda>x. snd x ! col = k) ws) (Some cols)
                        = letter_stmts opt n (filter (\<lambda>x. snd x ! col = k) ws') (Some cols)"
      using Suc.IH[OF reordered_filter[OF Suc.prems]] by blast
    then have "letter_branches opt n cols (map (\<lambda>k. (k, filter (\<lambda>x. snd x ! col = k) ws)) keys)
        = letter_branches opt n cols (map (\<lambda>k. (k, filter (\<lambda>x. snd x ! col = k) ws')) keys)"
      by (rule letter_branches_cong)
    with p p' show ?thesis by (simp add: letter_stmts_plan)
  qed (simp_all add: letter_stmts_plan)
qed

lemma switch_stmts_reordered:
  assumes r: "reordered ws ws'"
  shows "switch_stmts opt ws = switch_stmts opt ws'"
proof (cases "ws = []")
  case True
  with reordered_length[OF r] show ?thesis by (simp add: switch_stmts_def)
next
  case ne: False
  with reordered_length[OF r] have ne': "ws' \<noteq> []" by auto
  from r have s: "set ws = set ws'" by (simp add: reordered_def)
  let ?keys = "sorted_list_of_set (set (map (\<lambda>x. length (snd x)) ws))"
  have k': "sorted_list_of_set (set (map (\<lambda>x. length (snd x)) ws')) = ?keys"
    using s by simp
  note sp = split_list_per_length_Inr[OF ne]
  note sp' = split_list_per_length_Inr[OF ne', unfolded k']
  have "\<forall>k\<in>set ?keys. letter_stmts opt k (filter (\<lambda>x. length (snd x) = k) ws) None
                        = letter_stmts opt k (filter (\<lambda>x. length (snd x) = k) ws') None"
    using letter_stmts_reordered[OF reordered_filter[OF r]] by blast
  then have "length_branches opt (map (\<lambda>k. (k, filter (\<lambda>x. length (snd x) = k) ws)) ?keys)
      = length_branches opt (map (\<lambda>k. (k, filter (\<lambda>x. length (snd x) = k) ws')) ?keys)"
    by (rule length_branches_cong)
  then show ?thesis
    unfolding switch_stmts_unfold[OF ne sp] switch_stmts_unfold[OF ne' sp']
    by (simp cong: sum.case_cong)
qed

text \<open>
  C4, as stated, fails: the header comment lists the words in the order of the list
  passed in, so two listings of the corpus \<open>{(0, if), (1, in)}\<close> give different
  output. The two texts are written out below; they differ in the third and fourth
  line and nowhere else.
\<close>

theorem reordering_changes_header:
  "set [(0::nat, ''if''), (1, ''in'')] = set [(1, ''in''), (0, ''if'')]
   \<and> output_sink (snd (main [] [(0, ''if''), (1, ''in'')])) =
         ''    /*'' @ [CHR 0x0A]
         @ ''     * Generating switch for the list of 2 entries:'' @ [CHR 0x0A]
         @ ''     * if'' @ [CHR 0x0A]
         @ ''     * in'' @ [CHR 0x0A]
         @ ''     */'' @ [CHR 0x0A]
         @ ''    if (JSRW_LENGTH() == 2) {'' @ [CHR 0x0A]
         @ ''        if (JSRW_AT(1) == '' @ [CHR 0x27] @ ''f'' @ [CHR 0x27] @ '') {'' @ [CHR 0x0A]
         @ ''            if (JSRW_AT(0)=='' @ [CHR 0x27] @ ''i'' @ [CHR 0x27] @ '') {'' @ [CHR 0x0A]
         @ ''                JSRW_GOT_MATCH(0) /* if */'' @ [CHR 0x0A]
         @ ''            }'' @ [CHR 0x0A]
         @ ''            JSRW_NO_MATCH()'' @ [CHR 0x0A]
         @ ''        }'' @ [CHR 0x0A]
         @ ''        if (JSRW_AT(1) == '' @ [CHR 0x27] @ ''n'' @ [CHR 0x27] @ '') {'' @ [CHR 0x0A]
         @ ''            if (JSRW_AT(0)=='' @ [CHR 0x27] @ ''i'' @ [CHR 0x27] @ '') {'' @ [CHR 0x0A]
         @ ''                JSRW_GOT_MATCH(1) /* in */'' @ [CHR 0x0A]
         @ ''            }'' @ [CHR 0x0A]
         @ ''            JSRW_NO_MATCH()'' @ [CHR 0x0A]
         @ ''        }'' @ [CHR 0x0A]
         @ ''        JSRW_NO_MATCH()'' @ [CHR 0x0A]
         @ ''    }'' @ [CHR 0x0A]
         @ ''    JSRW_NO_MATCH()'' @ [CHR 0x0A]
   \<and> output_sink (snd (main [] [(1, ''in''), (0, ''if'')])) =
         ''    /*'' @ [CHR 0x0A]
         @ ''     * Generating switch for the list of 2 entries:'' @ [CHR 0x0A]
         @ ''     * in'' @ [CHR 0x0A]
         @ ''     * if'' @ [CHR 0x0A]
         @ ''     */'' @ [CHR 0x0A]
         @ ''    if (JSRW_LENGTH() == 2) {'' @ [CHR 0x0A]
         @ ''        if (JSRW_AT(1) == '' @ [CHR 0x27] @ ''f'' @ [CHR 0x27] @ '') {'' @ [CHR 0x0A]
         @ ''            if (JSRW_AT(0)=='' @ [CHR 0x27] @ ''i'' @ [CHR 0x27] @ '') {'' @ [CHR 0x0A]
         @ ''                JSRW_GOT_MATCH(0) /* if */'' @ [CHR 0x0A]
         @ ''            }'' @ [CHR 0x0A]
         @ ''            JSRW_NO_MATCH()'' @ [CHR 0x0A]
         @ ''        }'' @ [CHR 0x0A]
         @ ''        if (JSRW_AT(1) == '' @ [CHR 0x27] @ ''n'' @ [CHR 0x27] @ '') {'' @ [CHR 0x0A]
         @ ''            if (JSRW_AT(0)=='' @ [CHR 0x27] @ ''i'' @ [CHR 0x27] @ '') {'' @ [CHR 0x0A]
         @ ''                JSRW_GOT_MATCH(1) /* in */'' @ [CHR 0x0A]
         @ ''            }'' @ [CHR 0x0A]
         @ ''            JSRW_NO_MATCH()'' @ [CHR 0x0A]
         @ ''        }'' @ [CHR 0x0A]
         @ ''        JSRW_NO_MATCH()'' @ [CHR 0x0A]
         @ ''    }'' @ [CHR 0x0A]
         @ ''    JSRW_NO_MATCH()'' @ [CHR 0x0A]
   \<and> output_sink (snd (main [] [(0, ''if''), (1, ''in'')]))
       \<noteq> output_sink (snd (main [] [(1, ''in''), (0, ''if'')]))"
proof -
  have s: "set [(0::nat, ''if''), (1, ''in'')] = set [(1, ''in''), (0, ''if'')]" by auto
  have a: "output_sink (snd (main [] [(0, ''if''), (1, ''in'')])) =
         ''    /*'' @ [CHR 0x0A]
         @ ''     * Generating switch for the list of 2 entries:'' @ [CHR 0x0A]
         @ ''     * if'' @ [CHR 0x0A]
         @ ''     * in'' @ [CHR 0x0A]
         @ ''     */'' @ [CHR 0x0A]
         @ ''    if (JSRW_LENGTH() == 2) {'' @ [CHR 0x0A]
         @ ''        if (JSRW_AT(1) == '' @ [CHR 0x27] @ ''f'' @ [CHR 0x27] @ '') {'' @ [CHR 0x0A]
         @ ''            if (JSRW_AT(0)=='' @ [CHR 0x27] @ ''i'' @ [CHR 0x27] @ '') {'' @ [CHR 0x0A]
         @ ''                JSRW_GOT_MATCH(0) /* if */'' @ [CHR 0x0A]
         @ ''            }'' @ [CHR 0x0A]
         @ ''            JSRW_NO_MATCH()'' @ [CHR 0x0A]
         @ ''        }'' @ [CHR 0x0A]
         @ ''        if (JSRW_AT(1) == '' @ [CHR 0x27] @ ''n'' @ [CHR 0x27] @ '') {'' @ [CHR 0x0A]
         @ ''            if (JSRW_AT(0)=='' @ [CHR 0x27] @ ''i'' @ [CHR 0x27] @ '') {'' @ [CHR 0x0A]
         @ ''                JSRW_GOT_MATCH(1) /* in */'' @ [CHR 0x0A]
         @ ''            }'' @ [CHR 0x0A]
         @ ''            JSRW_NO_MATCH()'' @ [CHR 0x0A]
         @ ''        }'' @ [CHR 0x0A]
         @ ''        JSRW_NO_MATCH()'' @ [CHR 0x0A]
         @ ''    }'' @ [CHR 0x0A]
         @ ''    JSRW_NO_MATCH()'' @ [CHR 0x0A]"
    by code_simp
  have b: "output_sink (snd (main [] [(1, ''in''), (0, ''if'')])) =
         ''    /*'' @ [CHR 0x0A]
         @ ''     * Generating switch for the list of 2 entries:'' @ [CHR 0x0A]
         @ ''     * in'' @ [CHR 0x0A]
         @ ''     * if'' @ [CHR 0x0A]
         @ ''     */'' @ [CHR 0x0A]
         @ ''    if (JSRW_LENGTH() == 2) {'' @ [CHR 0x0A]
         @ ''        if (JSRW_AT(1) == '' @ [CHR 0x27] @ ''f'' @ [CHR 0x27] @ '') {'' @ [CHR 0x0A]
         @ ''            if (JSRW_AT(0)=='' @ [CHR 0x27] @ ''i'' @ [CHR 0x27] @ '') {'' @ [CHR 0x0A]
         @ ''                JSRW_GOT_MATCH(0) /* if */'' @ [CHR 0x0A]
         @ ''            }'' @ [CHR 0x0A]
         @ ''            JSRW_NO_MATCH()'' @ [CHR 0x0A]
         @ ''        }'' @ [CHR 0x0A]
         @ ''        if (JSRW_AT(1) == '' @ [CHR 0x27] @ ''n'' @ [CHR 0x27] @ '') {'' @ [CHR 0x0A]
         @ ''            if (JSRW_AT(0)=='' @ [CHR 0x27] @ ''i'' @ [CHR 0x27] @ '') {'' @ [CHR 0x0A]
         @ ''                JSRW_GOT_MATCH(1) /* in */'' @ [CHR 0x0A]
         @ ''            }'' @ [CHR 0x0A]
         @ ''            JSRW_NO_MATCH()'' @ [CHR 0x0A]
         @ ''        }'' @ [CHR 0x0A]
         @ ''        JSRW_NO_MATCH()'' @ [CHR 0x0A]
         @ ''    }'' @ [CHR 0x0A]
         @ ''    JSRW_NO_MATCH()'' @ [CHR 0x0A]"
    by code_simp
  have "output_sink (snd (main [] [(0, ''if''), (1, ''in'')]))
       \<noteq> output_sink (snd (main [] [(1, ''in''), (0, ''if'')]))"
    unfolding a b by simp
  with s a b show ?thesis by blast
qed

text \<open>
  C4, as the code has it. Let \<open>ws\<close> and \<open>ws'\<close> list the same pairs, each pair once, in
  any two orders. Then \<open>generate_switch\<close> raises on both or on neither, with the same
  error; and when it returns, the two outputs are the header comment of the respective
  list (its words in the order of that list) followed by one and the same text \<open>body\<close>:
  everything after the header, that is the whole decision procedure, is byte for byte
  the same. For one list the output is a function of the options and the list, so that
  repeated runs on one ordering agree.
\<close>

theorem reordering_keeps_procedure:
  assumes "distinct ws" and "distinct ws'" and "set ws = set ws'"
  shows "fst (generate_switch opt ws) = fst (generate_switch opt ws')
       \<and> (fst (generate_switch opt ws) = None \<longrightarrow>
            (\<exists>body.
               output_sink (snd (generate_switch opt ws))
                 = output_sink opt
                   @ concat (map (text_line (indent_level opt))
                       ([''/*'',
                         '' * Generating switch for the list of '' @ str_nat (length ws) @ '' entries:'']
                        @ map (\<lambda>(index, word). '' * '' @ word) ws
                        @ ['' */'']))
                   @ body
             \<and> output_sink (snd (generate_switch opt ws'))
                 = output_sink opt
                   @ concat (map (text_line (indent_level opt))
                       ([''/*'',
                         '' * Generating switch for the list of '' @ str_nat (length ws') @ '' entries:'']
                        @ map (\<lambda>(index, word). '' * '' @ word) ws'
                        @ ['' */'']))
                   @ body))"
proof -
  from assms have r: "reordered ws ws'" by (simp add: reordered_def)
  show ?thesis
  proof (cases "switch_stmts opt ws")
    case (Inl e)
    with switch_stmts_reordered[OF r, of opt] have i': "switch_stmts opt ws' = Inl e" by simp
    from generate_switch_raises[OF Inl] generate_switch_raises[OF i']
    show ?thesis by simp
  next
    case (Inr stmts)
    with switch_stmts_reordered[OF r, of opt] have i': "switch_stmts opt ws' = Inr stmts" by simp
    from generate_switch_renders[OF Inr] generate_switch_renders[OF i']
    show ?thesis by (simp add: emit_def header_text_def header_lines_def)
  qed
qed

theorem reordering_keeps_procedure_witness:
  "distinct [(0::nat, ''if''), (1, ''in'')] \<and> distinct [(1::nat, ''in''), (0, ''if'')]
   \<and> set [(0::nat, ''if''), (1, ''in'')] = set [(1, ''in''), (0, ''if'')]
   \<and> fst (generate_switch (main_opt []) [(0, ''if''), (1, ''in'')]) = None
   \<and> fst (generate_switch (main_opt []) [(1, ''in''), (0, ''if'')]) = None
   \<and> (\<exists>body.
         output_sink (snd (generate_switch (main_opt []) [(0, ''if''), (1, ''in'')]))
           = ''    /*'' @ [CHR 0x0A]
         @ ''     * Generating switch for the list of 2 entries:'' @ [CHR 0x0A]
         @ ''     * if'' @ [CHR 0x0A]
         @ ''     * in'' @ [CHR 0x0A]
         @ ''     */'' @ [CHR 0x0A]
             @ body
       \<and> output_sink (snd (generate_switch (main_opt []) [(1, ''in''), (0, ''if'')]))
           = ''    /*'' @ [CHR 0x0A]
         @ ''     * Generating switch for the list of 2 entries:'' @ [CHR 0x0A]
         @ ''     * in'' @ [CHR 0x0A]
         @ ''     * if'' @ [CHR 0x0A]
         @ ''     */'' @ [CHR 0x0A]
             @ body)"
proof -
  let ?a = "[(0::nat, ''if''), (1, ''in'')]"
  let ?b = "[(1::nat, ''in''), (0, ''if'')]"
  have d: "distinct ?a" and d': "distinct ?b" by simp_all
  have s: "set ?a = set ?b" by auto
  have ok: "fst (generate_switch (main_opt []) ?a) = None" by code_simp
  have lvl: "indent_level (main_opt []) = 1" and out: "output_sink (main_opt []) = []"
    by (simp_all add: main_opt_def)
  have ha: "concat (map (text_line 1)
                 ([''/*'',
                   '' * Generating switch for the list of '' @ str_nat (length ?a) @ '' entries:'']
                  @ map (\<lambda>(index, word). '' * '' @ word) ?a
                  @ ['' */'']))
      = ''    /*'' @ [CHR 0x0A]
         @ ''     * Generating switch for the list of 2 entries:'' @ [CHR 0x0A]
         @ ''     * if'' @ [CHR 0x0A]
         @ ''     * in'' @ [CHR 0x0A]
         @ ''     */'' @ [CHR 0x0A]"
    by code_simp
  have hb: "concat (map (text_line 1)
                 ([''/*'',
                   '' * Generating switch for the list of '' @ str_nat (length ?b) @ '' entries:'']
                  @ map (\<lambda>(index, word). '' * '' @ word) ?b
                  @ ['' */'']))
      = ''    /*'' @ [CHR 0x0A]
         @ ''     * Generating switch for the list of 2 entries:'' @ [CHR 0x0A]
         @ ''     * in'' @ [CHR 0x0A]
         @ ''     * if'' @ [CHR 0x0A]
         @ ''     */'' @ [CHR 0x0A]"
    by code_simp
  from reordering_keeps_procedure[OF d d' s, of "main_opt []"]
  have eq: "fst (generate_switch (main_opt []) ?a) = fst (generate_switch (main_opt []) ?b)"
    and imp: "fst (generate_switch (main_opt []) ?a) = None \<longrightarrow>
      (\<exists>body.
         output_sink (snd (generate_switch (main_opt []) ?a))
           = ''    /*'' @ [CHR 0x0A]
         @ ''     * Generating switch for the list of 2 entries:'' @ [CHR 0x0A]
         @ ''     * if'' @ [CHR 0x0A]
         @ ''     * in'' @ [CHR 0x0A]
         @ ''     */'' @ [CHR 0x0A]
             @ body
       \<and> output_sink (snd (generate_switch (main_opt []) ?b))
           = ''    /*'' @ [CHR 0x0A]
         @ ''     * Generating switch for the list of 2 entries:'' @ [CHR 0x0A]
         @ ''     * in'' @ [CHR 0x0A]
         @ ''     * if'' @ [CHR 0x0A]
         @ ''     */'' @ [CHR 0x0A]
             @ body)"
    unfolding lvl out ha hb by simp_all
  from eq ok have ok': "fst (generate_switch (main_opt []) ?b) = None" by simp
  from imp ok have "\<exists>body.
         output_sink (snd (generate_switch (main_opt []) ?a))
           = ''    /*'' @ [CHR 0x0A]
         @ ''     * Generating switch for the list of 2 entries:'' @ [CHR 0x0A]
         @ ''     * if'' @ [CHR 0x0A]
         @ ''     * in'' @ [CHR 0x0A]
         @ ''     */'' @ [CHR 0x0A]
             @ body
       \<and> output_sink (snd (generate_switch (main_opt []) ?b))
           = ''    /*'' @ [CHR 0x0A]
         @ ''     * Generating switch for the list of 2 entries:'' @ [CHR 0x0A]
         @ ''     * in'' @ [CHR 0x0A]
         @ ''     * if'' @ [CHR 0x0A]
         @ ''     */'' @ [CHR 0x0A]
             @ body" by blast
  with d d' s ok ok' show ?thesis by blast
qed

end
